theory Spec2Isabelle
  imports Complex_Main "HOL-Library.Word" "HOL-Library.Multiset"
begin

unbundle bit_operations_syntax

section \<open>Conventions of the embedding\<close>

text \<open>
  The repository is a Go program: \<^verbatim>\<open>perlin/perlin.go\<close> (gradient noise and its fractal
  sum), \<^verbatim>\<open>poi/poi.go\<close> (a Poisson-disk sampler) and \<^verbatim>\<open>main.go\<close> (the height-field
  assembly inside \<^verbatim>\<open>updateImage\<close>, and the user interface).

  \<^item> Go's \<^verbatim>\<open>int\<close> and \<^verbatim>\<open>int64\<close> are modelled by \<^typ>\<open>int\<close>; no quantity of the
    program comes near the 64-bit limits (table entries, raster coordinates, grid indices).
  \<^item> Go's \<^verbatim>\<open>float64\<close> is modelled by \<^typ>\<open>real\<close> with exact arithmetic; infinities
    and NaN are outside the model. Where a statement is an exact equality of computed
    floats, the arithmetic of \<^verbatim>\<open>perlin.go\<close> is also given with every operation rounded
    (the functions named \<open>_fl\<close>, with the rounding as a parameter), and \<open>f64\<close> is
    rounding to the nearest binary64 number.
  \<^item> A run-time panic (index out of range, a bad argument of \<^verbatim>\<open>rand.Intn\<close> or
    \<^verbatim>\<open>make\<close>) is the value \<open>Inl\<close> of a sum; a loop that may run forever is a
    \<^theory_text>\<open>partial_function\<close> whose value \<open>None\<close> means that the call does not return.
  \<^item> The standard library's \<^verbatim>\<open>math/rand\<close> is not part of the repository: it is a
    parameter of the model (a record of state-passing functions) constrained only by its
    documented contract.
\<close>

datatype panic = IndexOutOfRange | IntnArgument | MakeLen

type_synonym 'a res = "panic + 'a"

text \<open>Slice indexing \<^verbatim>\<open>xs[i]\<close> and slice assignment \<^verbatim>\<open>xs[i] = v\<close>, which panic out of range.\<close>

definition index :: "'a list \<Rightarrow> int \<Rightarrow> 'a res" where
  "index xs i = (if 0 \<le> i \<and> i < int (length xs) then Inr (xs ! nat i) else Inl IndexOutOfRange)"

definition store :: "'a list \<Rightarrow> int \<Rightarrow> 'a \<Rightarrow> 'a list res" where
  "store xs i v = (if 0 \<le> i \<and> i < int (length xs) then Inr (xs[nat i := v]) else Inl IndexOutOfRange)"

text \<open>The conversion \<^verbatim>\<open>int(f)\<close> of a float truncates toward zero.\<close>

definition go_int :: "real \<Rightarrow> int" where
  "go_int v = (if 0 \<le> v then \<lfloor>v\<rfloor> else \<lceil>v\<rceil>)"

definition math_Floor :: "real \<Rightarrow> real" where
  "math_Floor v = of_int \<lfloor>v\<rfloor>"

definition math_Ceil :: "real \<Rightarrow> real" where
  "math_Ceil v = of_int \<lceil>v\<rceil>"

text \<open>\<^verbatim>\<open>math.Round\<close> rounds to the nearest integer, halves away from zero.\<close>

definition math_Round :: "real \<Rightarrow> real" where
  "math_Round v = (if 0 \<le> v then of_int \<lfloor>v + 1 / 2\<rfloor> else of_int \<lceil>v - 1 / 2\<rceil>)"

subsection \<open>Rounding to float64\<close>

text \<open>
  IEEE 754 binary64, round to nearest, ties to even, on the normal range: \<open>ulp v\<close> is the
  spacing of the binary64 numbers in the binade of \<open>v\<close> (found by halving or doubling
  \<open>\<bar>v\<bar>\<close> into \<open>[1,2)\<close>, where it is \<open>2\<^sup>-\<^sup>5\<^sup>2\<close>), and \<open>f64 v\<close> is the multiple of \<open>ulp v\<close>
  nearest to \<open>v\<close>.
\<close>

fun ulp_search :: "nat \<Rightarrow> real \<Rightarrow> real" where
  "ulp_search 0 v = 1 / 2 ^ 52"
| "ulp_search (Suc n) v =
     (if 2 \<le> v then 2 * ulp_search n (v / 2)
      else if v < 1 then ulp_search n (2 * v) / 2
      else 1 / 2 ^ 52)"

definition ulp :: "real \<Rightarrow> real" where
  "ulp v = ulp_search 1100 \<bar>v\<bar>"

definition round_even :: "real \<Rightarrow> int" where
  "round_even q =
     (let f = \<lfloor>q\<rfloor>; r = q - of_int f
      in if r < 1 / 2 then f
         else if 1 / 2 < r then f + 1
         else if even f then f else f + 1)"

definition f64 :: "real \<Rightarrow> real" where
  "f64 v = (if v = 0 then 0 else of_int (round_even (v / ulp v)) * ulp v)"

subsection \<open>The random-number library\<close>

text \<open>
  \<^verbatim>\<open>rand.New(rand.NewSource(seed))\<close> gives a generator whose state is a function of the
  seed; \<^verbatim>\<open>r.Intn(n)\<close>, \<^verbatim>\<open>r.Float64()\<close> and \<^verbatim>\<open>r.Perm(n)\<close> read and advance that state.
\<close>

record 's rand_lib =
  NewSource :: "64 word \<Rightarrow> 's"
  Intn :: "'s \<Rightarrow> int \<Rightarrow> int \<times> 's"
  Float64 :: "'s \<Rightarrow> real \<times> 's"
  Perm :: "'s \<Rightarrow> int \<Rightarrow> int list \<times> 's"

text \<open>The documented contract: \<^verbatim>\<open>Intn(n)\<close> is in \<open>[0,n)\<close> for \<open>n > 0\<close>, \<^verbatim>\<open>Float64()\<close> is
  in \<open>[0,1)\<close>, and \<^verbatim>\<open>Perm(n)\<close> is a permutation of \<open>0..n-1\<close>.\<close>

definition Intn_ok :: "'s rand_lib \<Rightarrow> bool" where
  "Intn_ok R = (\<forall>s n. 0 < n \<longrightarrow> 0 \<le> fst (Intn R s n) \<and> fst (Intn R s n) < n)"

definition Float64_ok :: "'s rand_lib \<Rightarrow> bool" where
  "Float64_ok R = (\<forall>s. 0 \<le> fst (Float64 R s) \<and> fst (Float64 R s) < 1)"

definition Perm_ok :: "'s rand_lib \<Rightarrow> bool" where
  "Perm_ok R = (\<forall>s n. 0 \<le> n \<longrightarrow> distinct (fst (Perm R s n)) \<and> set (fst (Perm R s n)) = {0..<n})"

text \<open>A generator for concrete runs: it replays a script of draws (and, once the script
  is used up, repeats a fixed draw), always inside the contract.\<close>

record script =
  int_draws :: "int list"
  float_draws :: "real list"
  perm_draw :: "int list"

definition script_Intn :: "script \<Rightarrow> int \<Rightarrow> int \<times> script" where
  "script_Intn s n = (case int_draws s of
      [] \<Rightarrow> (0, s)
    | k # ks \<Rightarrow> (k mod n, s\<lparr>int_draws := ks\<rparr>))"

definition script_Float64 :: "script \<Rightarrow> real \<times> script" where
  "script_Float64 s = (case float_draws s of
      [] \<Rightarrow> (1 / 2, s)
    | v # vs \<Rightarrow> (if 0 \<le> v \<and> v < 1 then v else 1 / 2, s\<lparr>float_draws := vs\<rparr>))"

definition script_Perm :: "script \<Rightarrow> int \<Rightarrow> int list \<times> script" where
  "script_Perm s n = (if sort (perm_draw s) = [0..n - 1] then perm_draw s else [0..n - 1], s)"

definition scripted :: "script \<Rightarrow> script rand_lib" where
  "scripted s0 = \<lparr>NewSource = (\<lambda>seed. s0), Intn = script_Intn,
                  Float64 = script_Float64, Perm = script_Perm\<rparr>"

section \<open>perlin.go\<close>

record Perlin =
  p :: "int list"

text \<open>\<^verbatim>\<open>NewPerlin\<close>: the loop \<^verbatim>\<open>for i := 0; i < 256; i++ { p.p[i] = base[i]; p.p[256+i] = base[i] }\<close>
  over the indices still to visit.\<close>

fun NewPerlin_loop :: "int list \<Rightarrow> int list \<Rightarrow> int list \<Rightarrow> int list res" where
  "NewPerlin_loop base [] tab = Inr tab"
| "NewPerlin_loop base (i # rest) tab =
     (case index base i of Inl e \<Rightarrow> Inl e | Inr b1 \<Rightarrow>
      case store tab i b1 of Inl e \<Rightarrow> Inl e | Inr tab1 \<Rightarrow>
      case index base i of Inl e \<Rightarrow> Inl e | Inr b2 \<Rightarrow>
      case store tab1 (256 + i) b2 of Inl e \<Rightarrow> Inl e | Inr tab2 \<Rightarrow>
      NewPerlin_loop base rest tab2)"

definition NewPerlin :: "'s rand_lib \<Rightarrow> 64 word \<Rightarrow> Perlin res" where
  "NewPerlin R seed =
     (let r = NewSource R seed;
          base = fst (Perm R r 256)
      in case NewPerlin_loop base [0..255] (replicate 512 0) of
           Inl e \<Rightarrow> Inl e
         | Inr tab \<Rightarrow> Inr \<lparr>p = tab\<rparr>)"

definition fade :: "real \<Rightarrow> real" where
  "fade t = t * t * t * (t * (t * 6 - 15) + 10)"

definition lerp :: "real \<Rightarrow> real \<Rightarrow> real \<Rightarrow> real" where
  "lerp t a b = a + t * (b - a)"

definition grad :: "int \<Rightarrow> real \<Rightarrow> real \<Rightarrow> real" where
  "grad hash x y =
     (let h = hash AND 3
      in if h = 0 then x + y
         else if h = 1 then - x + y
         else if h = 2 then x - y
         else - x - y)"

text \<open>The chained lookup \<^verbatim>\<open>p.p[p.p[i]+j]\<close>.\<close>

definition lookup2 :: "Perlin \<Rightarrow> int \<Rightarrow> int \<Rightarrow> int res" where
  "lookup2 pl i j = (case index (p pl) i of Inl e \<Rightarrow> Inl e | Inr a \<Rightarrow> index (p pl) (a + j))"

definition Noise2DRaw :: "Perlin \<Rightarrow> real \<Rightarrow> real \<Rightarrow> real \<Rightarrow> real res" where
  "Noise2DRaw pl x y freq =
     (let xf0 = x * freq;
          yf0 = y * freq;
          xi = go_int (math_Floor xf0) AND 255;
          yi = go_int (math_Floor yf0) AND 255;
          xf = xf0 - math_Floor xf0;
          yf = yf0 - math_Floor yf0;
          u = fade xf;
          v = fade yf
      in case lookup2 pl xi yi of Inl e \<Rightarrow> Inl e | Inr aa \<Rightarrow>
         case lookup2 pl xi (yi + 1) of Inl e \<Rightarrow> Inl e | Inr ab \<Rightarrow>
         case lookup2 pl (xi + 1) yi of Inl e \<Rightarrow> Inl e | Inr ba \<Rightarrow>
         case lookup2 pl (xi + 1) (yi + 1) of Inl e \<Rightarrow> Inl e | Inr bb \<Rightarrow>
           (let x1 = lerp u (grad aa xf yf) (grad ba (xf - 1) yf);
                x2 = lerp u (grad ab xf (yf - 1)) (grad bb (xf - 1) (yf - 1))
            in Inr (lerp v x1 x2)))"

definition Noise2D :: "Perlin \<Rightarrow> real \<Rightarrow> real \<Rightarrow> real \<Rightarrow> real res" where
  "Noise2D pl x y freq =
     (case Noise2DRaw pl x y freq of Inl e \<Rightarrow> Inl e | Inr r \<Rightarrow> Inr ((r + 1.0) * 0.5))"

text \<open>\<^verbatim>\<open>FBM2DRaw\<close>: the loop state is \<open>(tot, amplitude, frequency, maxAmp)\<close>, \<open>tot\<close> for the source's \<^verbatim>\<open>total\<close>; the loop
  \<^verbatim>\<open>for i := 0; i < octaves; i++\<close> runs \<open>nat octaves\<close> times.\<close>

fun FBM2DRaw_loop ::
  "Perlin \<Rightarrow> real \<Rightarrow> real \<Rightarrow> real \<Rightarrow> real \<Rightarrow> nat \<Rightarrow> real \<times> real \<times> real \<times> real
   \<Rightarrow> (real \<times> real \<times> real \<times> real) res" where
  "FBM2DRaw_loop pl x y persistence lacunarity 0 st = Inr st"
| "FBM2DRaw_loop pl x y persistence lacunarity (Suc n) (tot, amplitude, frequency, maxAmp) =
     (case Noise2DRaw pl x y frequency of Inl e \<Rightarrow> Inl e | Inr v \<Rightarrow>
        FBM2DRaw_loop pl x y persistence lacunarity n
          (tot + v * amplitude, amplitude * persistence, frequency * lacunarity,
           maxAmp + amplitude))"

definition FBM2DRaw ::
  "Perlin \<Rightarrow> real \<Rightarrow> real \<Rightarrow> real \<Rightarrow> int \<Rightarrow> real \<Rightarrow> real \<Rightarrow> real res" where
  "FBM2DRaw pl x y baseFreq octaves persistence lacunarity =
     (case FBM2DRaw_loop pl x y persistence lacunarity (nat octaves) (0.0, 1.0, baseFreq, 0.0) of
        Inl e \<Rightarrow> Inl e
      | Inr (tot, amplitude, frequency, maxAmp) \<Rightarrow>
          if maxAmp = 0 then Inr 0 else Inr (tot / maxAmp))"

definition FBM2D :: "Perlin \<Rightarrow> real \<Rightarrow> real \<Rightarrow> real \<Rightarrow> real \<Rightarrow> real \<Rightarrow> real \<Rightarrow> real res" where
  "FBM2D pl x y baseFreq octaves persistence lacunarity =
     (let octs = go_int octaves
      in case FBM2DRaw pl x y baseFreq octs persistence lacunarity of
           Inl e \<Rightarrow> Inl e
         | Inr raw \<Rightarrow> Inr ((raw + 1.0) * 0.5))"



subsection \<open>The same arithmetic with every operation rounded\<close>

text \<open>
  Each float64 operation of \<^verbatim>\<open>fade\<close>, \<^verbatim>\<open>lerp\<close>, \<^verbatim>\<open>grad\<close>, \<^verbatim>\<open>Noise2DRaw\<close> and
  \<^verbatim>\<open>FBM2DRaw\<close> rounds its exact result with \<open>rnd\<close>, in the order in which Go evaluates the
  expression (negation, \<^verbatim>\<open>math.Floor\<close> and the conversions are exact). With \<open>rnd\<close> the
  identity these are the functions above; with \<open>rnd = f64\<close> they are the float64
  computation in which no two operations are fused.
\<close>

definition fade_fl :: "(real \<Rightarrow> real) \<Rightarrow> real \<Rightarrow> real" where
  "fade_fl rnd t =
     rnd (rnd (rnd (t * t) * t) * rnd (rnd (t * rnd (rnd (t * 6) - 15)) + 10))"

definition lerp_fl :: "(real \<Rightarrow> real) \<Rightarrow> real \<Rightarrow> real \<Rightarrow> real \<Rightarrow> real" where
  "lerp_fl rnd t a b = rnd (a + rnd (t * rnd (b - a)))"

definition grad_fl :: "(real \<Rightarrow> real) \<Rightarrow> int \<Rightarrow> real \<Rightarrow> real \<Rightarrow> real" where
  "grad_fl rnd hash x y =
     (let h = hash AND 3
      in if h = 0 then rnd (x + y)
         else if h = 1 then rnd (- x + y)
         else if h = 2 then rnd (x - y)
         else rnd (- x - y))"

definition Noise2DRaw_fl :: "(real \<Rightarrow> real) \<Rightarrow> Perlin \<Rightarrow> real \<Rightarrow> real \<Rightarrow> real \<Rightarrow> real res" where
  "Noise2DRaw_fl rnd pl x y freq =
     (let xf0 = rnd (x * freq);
          yf0 = rnd (y * freq);
          xi = go_int (math_Floor xf0) AND 255;
          yi = go_int (math_Floor yf0) AND 255;
          xf = rnd (xf0 - math_Floor xf0);
          yf = rnd (yf0 - math_Floor yf0);
          u = fade_fl rnd xf;
          v = fade_fl rnd yf
      in case lookup2 pl xi yi of Inl e \<Rightarrow> Inl e | Inr aa \<Rightarrow>
         case lookup2 pl xi (yi + 1) of Inl e \<Rightarrow> Inl e | Inr ab \<Rightarrow>
         case lookup2 pl (xi + 1) yi of Inl e \<Rightarrow> Inl e | Inr ba \<Rightarrow>
         case lookup2 pl (xi + 1) (yi + 1) of Inl e \<Rightarrow> Inl e | Inr bb \<Rightarrow>
           (let x1 = lerp_fl rnd u (grad_fl rnd aa xf yf) (grad_fl rnd ba (rnd (xf - 1)) yf);
                x2 = lerp_fl rnd u (grad_fl rnd ab xf (rnd (yf - 1)))
                       (grad_fl rnd bb (rnd (xf - 1)) (rnd (yf - 1)))
            in Inr (lerp_fl rnd v x1 x2)))"

fun FBM2DRaw_fl_loop ::
  "(real \<Rightarrow> real) \<Rightarrow> Perlin \<Rightarrow> real \<Rightarrow> real \<Rightarrow> real \<Rightarrow> real \<Rightarrow> nat \<Rightarrow> real \<times> real \<times> real \<times> real
   \<Rightarrow> (real \<times> real \<times> real \<times> real) res" where
  "FBM2DRaw_fl_loop rnd pl x y persistence lacunarity 0 st = Inr st"
| "FBM2DRaw_fl_loop rnd pl x y persistence lacunarity (Suc n) (tot, amplitude, frequency, maxAmp) =
     (case Noise2DRaw_fl rnd pl x y frequency of Inl e \<Rightarrow> Inl e | Inr v \<Rightarrow>
        FBM2DRaw_fl_loop rnd pl x y persistence lacunarity n
          (rnd (tot + rnd (v * amplitude)), rnd (amplitude * persistence),
           rnd (frequency * lacunarity), rnd (maxAmp + amplitude)))"

definition FBM2DRaw_fl ::
  "(real \<Rightarrow> real) \<Rightarrow> Perlin \<Rightarrow> real \<Rightarrow> real \<Rightarrow> real \<Rightarrow> int \<Rightarrow> real \<Rightarrow> real \<Rightarrow> real res" where
  "FBM2DRaw_fl rnd pl x y baseFreq octaves persistence lacunarity =
     (case FBM2DRaw_fl_loop rnd pl x y persistence lacunarity (nat octaves) (0.0, 1.0, baseFreq, 0.0) of
        Inl e \<Rightarrow> Inl e
      | Inr (tot, amplitude, frequency, maxAmp) \<Rightarrow>
          if maxAmp = 0 then Inr 0 else Inr (rnd (tot / maxAmp)))"

section \<open>Functions of the math package\<close>

text \<open>The values of the library functions on the arguments the program passes (finite
  results): \<^verbatim>\<open>math.Sqrt\<close>, \<^verbatim>\<open>math.Hypot\<close>, and \<^verbatim>\<open>math.Pow\<close>, whose value at exponent
  \<open>0\<close> is \<open>1\<close> and whose value at an integer exponent is defined for a negative base too.\<close>

definition math_Sqrt :: "real \<Rightarrow> real" where
  "math_Sqrt v = sqrt v"


definition math_Pow :: "real \<Rightarrow> real \<Rightarrow> real" where
  "math_Pow x y =
     (if y = 0 then 1
      else if y = of_int \<lfloor>y\<rfloor> then (if 0 \<le> y then x ^ nat \<lfloor>y\<rfloor> else 1 / x ^ nat \<lfloor>- y\<rfloor>)
      else if x = 0 then 0
      else x powr y)"

section \<open>poi.go\<close>

record Point =
  X :: int
  Y :: int

text \<open>The zero value \<^verbatim>\<open>Point{}\<close>, which the sampler's grid uses for an empty cell.\<close>

definition Point0 :: Point where
  "Point0 = \<lparr>X = 0, Y = 0\<rparr>"

text \<open>\<^verbatim>\<open>noiseMap[p]\<close> on a Go map: the stored value, or \<open>0\<close> for a key that is absent.\<close>

definition noise_at :: "(Point \<rightharpoonup> real) \<Rightarrow> Point \<Rightarrow> real" where
  "noise_at noiseMap pt = (case noiseMap pt of None \<Rightarrow> 0 | Some v \<Rightarrow> v)"

text \<open>The sampler's mutable variables. The grid \<^verbatim>\<open>[][]Point\<close> of \<open>gridWidth \<times> gridHeight\<close>
  cells is a function of the cell's two indices; every read of the source is guarded by the
  extents, and a write outside them panics.\<close>

record 's sampler =
  points :: "Point list"
  activePoints :: "Point list"
  grid :: "int \<times> int \<Rightarrow> Point"
  rng :: 's

definition grid_store ::
  "int \<Rightarrow> int \<Rightarrow> (int \<times> int \<Rightarrow> Point) \<Rightarrow> int \<Rightarrow> int \<Rightarrow> Point \<Rightarrow> (int \<times> int \<Rightarrow> Point) res" where
  "grid_store gridWidth gridHeight g gridX gridY v =
     (if 0 \<le> gridX \<and> gridX < gridWidth \<and> 0 \<le> gridY \<and> gridY < gridHeight
      then Inr (g((gridX, gridY) := v)) else Inl IndexOutOfRange)"

definition cellSize :: "int \<Rightarrow> real" where
  "cellSize minDistance = real_of_int minDistance / sqrt 2"

text \<open>\<^verbatim>\<open>int(float64(v) / cellSize)\<close>, the grid index of a coordinate.\<close>

definition cell_of :: "int \<Rightarrow> int \<Rightarrow> int" where
  "cell_of minDistance v = go_int (real_of_int v / cellSize minDistance)"

text \<open>The candidate of one attempt, from the two draws \<open>a\<close> and \<open>d\<close> of \<^verbatim>\<open>r.Float64()\<close>.\<close>

definition candidate_angle :: "real \<Rightarrow> real" where
  "candidate_angle a = a * 2 * pi"

definition candidate_dist :: "int \<Rightarrow> real \<Rightarrow> real" where
  "candidate_dist minDistance d = d * (real_of_int minDistance * 2) + real_of_int minDistance"

definition candidate :: "int \<Rightarrow> Point \<Rightarrow> real \<Rightarrow> real \<Rightarrow> Point" where
  "candidate minDistance pt a d =
     (let angle = candidate_angle a;
          dist = candidate_dist minDistance d
      in \<lparr>X = go_int (math_Round (real_of_int (X pt) + cos angle * dist)),
          Y = go_int (math_Round (real_of_int (Y pt) + sin angle * dist))\<rparr>)"

text \<open>The separation check: the distance computed for an occupied cell, and the two nested
  loops over the 5 by 5 block of cells that clear \<^verbatim>\<open>ok\<close>.\<close>

definition point_dist :: "Point \<Rightarrow> Point \<Rightarrow> real" where
  "point_dist a b =
     math_Sqrt (math_Pow (real_of_int (X a - X b)) 2 + math_Pow (real_of_int (Y a - Y b)) 2)"

definition window :: "int \<Rightarrow> int \<Rightarrow> (int \<times> int) list" where
  "window gridX gridY =
     concat (map (\<lambda>x. map (\<lambda>y. (x, y)) [gridY - 2..gridY + 2]) [gridX - 2..gridX + 2])"

definition far_enough ::
  "int \<Rightarrow> int \<Rightarrow> int \<Rightarrow> (int \<times> int \<Rightarrow> Point) \<Rightarrow> Point \<Rightarrow> int \<Rightarrow> int \<Rightarrow> bool" where
  "far_enough minDistance gridWidth gridHeight g newPoint gridX gridY =
     fold (\<lambda>(x, y) ok.
        if 0 \<le> x \<and> x < gridWidth \<and> 0 \<le> y \<and> y < gridHeight \<and> g (x, y) \<noteq> Point0
        then (if point_dist newPoint (g (x, y)) < real_of_int minDistance then False else ok)
        else ok)
      (window gridX gridY) True"

text \<open>The inner loop \<^verbatim>\<open>for i := 0; i < 30; i++\<close>, by the number of attempts left; it
  returns \<^verbatim>\<open>foundCandidate\<close> and the updated variables.\<close>

fun try_candidates ::
  "'s rand_lib \<Rightarrow> int \<Rightarrow> int \<Rightarrow> int \<Rightarrow> (Point \<rightharpoonup> real) \<Rightarrow> real \<Rightarrow> int \<Rightarrow> int \<Rightarrow> Point \<Rightarrow> nat
   \<Rightarrow> 's sampler \<Rightarrow> (bool \<times> 's sampler) res" where
  "try_candidates R minDistance width height noiseMap seaLevel gridWidth gridHeight pt 0 st =
     Inr (False, st)"
| "try_candidates R minDistance width height noiseMap seaLevel gridWidth gridHeight pt (Suc k) st =
     (let (a, r1) = Float64 R (rng st);
          (d, r2) = Float64 R r1;
          newPoint = candidate minDistance pt a d;
          st1 = st\<lparr>rng := r2\<rparr>
      in if 0 \<le> X newPoint \<and> X newPoint < width \<and> 0 \<le> Y newPoint \<and> Y newPoint < height
            \<and> noise_at noiseMap newPoint \<ge> seaLevel + 0.05
         then (let gridX = cell_of minDistance (X newPoint);
                   gridY = cell_of minDistance (Y newPoint)
               in if far_enough minDistance gridWidth gridHeight (grid st1) newPoint gridX gridY
                  then (case grid_store gridWidth gridHeight (grid st1) gridX gridY newPoint of
                          Inl e \<Rightarrow> Inl e
                        | Inr g \<Rightarrow>
                            Inr (True, st1\<lparr>points := points st1 @ [newPoint],
                                           activePoints := activePoints st1 @ [newPoint],
                                           grid := g\<rparr>))
                  else try_candidates R minDistance width height noiseMap seaLevel
                         gridWidth gridHeight pt k st1)
         else try_candidates R minDistance width height noiseMap seaLevel
                gridWidth gridHeight pt k st1)"

text \<open>The loop \<^verbatim>\<open>for len(activePoints) > 0\<close>. It need not end, so it is a partial function:
  \<open>None\<close> is a run that never returns.\<close>

partial_function (option) active_loop ::
  "'s rand_lib \<Rightarrow> int \<Rightarrow> int \<Rightarrow> int \<Rightarrow> (Point \<rightharpoonup> real) \<Rightarrow> real \<Rightarrow> int \<Rightarrow> int
   \<Rightarrow> 's sampler \<Rightarrow> (Point list \<times> int) res option" where
  "active_loop R minDistance width height noiseMap seaLevel gridWidth gridHeight st =
     (if activePoints st = [] then Some (Inr (points st, int (length (points st))))
      else (let (randomIndex, r1) = Intn R (rng st) (int (length (activePoints st)))
            in case index (activePoints st) randomIndex of
                 Inl e \<Rightarrow> Some (Inl e)
               | Inr pt \<Rightarrow>
                  (case try_candidates R minDistance width height noiseMap seaLevel
                          gridWidth gridHeight pt 30 (st\<lparr>rng := r1\<rparr>) of
                     Inl e \<Rightarrow> Some (Inl e)
                   | Inr (foundCandidate, st1) \<Rightarrow>
                       active_loop R minDistance width height noiseMap seaLevel gridWidth gridHeight
                         (if \<not> foundCandidate
                          then st1\<lparr>activePoints :=
                                 take (nat randomIndex) (activePoints st1) @
                                 drop (nat randomIndex + 1) (activePoints st1)\<rparr>
                          else st1))))"

text \<open>The loop \<^verbatim>\<open>for { ... }\<close> that looks for the initial point on land; \<^verbatim>\<open>r.Intn(n)\<close>
  panics for \<open>n \<le> 0\<close>.\<close>

partial_function (option) find_start ::
  "'s rand_lib \<Rightarrow> int \<Rightarrow> int \<Rightarrow> (Point \<rightharpoonup> real) \<Rightarrow> real \<Rightarrow> 's \<Rightarrow> (Point \<times> 's) res option" where
  "find_start R width height noiseMap seaLevel r =
     (if width \<le> 0 then Some (Inl IntnArgument)
      else let (x, r1) = Intn R r width
           in if height \<le> 0 then Some (Inl IntnArgument)
              else let (y, r2) = Intn R r1 height;
                       startPoint = \<lparr>X = x, Y = y\<rparr>
                   in if noise_at noiseMap startPoint \<ge> seaLevel + 0.05
                      then Some (Inr (startPoint, r2))
                      else find_start R width height noiseMap seaLevel r2)"

text \<open>\<^verbatim>\<open>PoissonDisk\<close>. With \<^verbatim>\<open>minDistance = 0\<close> the cell size is \<open>0\<close>, the grid extents are
  conversions of an infinity or a NaN, and \<^verbatim>\<open>make\<close> or \<^verbatim>\<open>r.Intn\<close> panics; \<^verbatim>\<open>make\<close> panics
  on a negative length (the inner \<^verbatim>\<open>make\<close> runs once per column, so only when there is
  a column).\<close>

definition PoissonDisk ::
  "'s rand_lib \<Rightarrow> int \<Rightarrow> int \<Rightarrow> int \<Rightarrow> 's \<Rightarrow> (Point \<rightharpoonup> real) \<Rightarrow> real
   \<Rightarrow> (Point list \<times> int) res option" where
  "PoissonDisk R minDistance width height r noiseMap seaLevel =
     (if minDistance = 0 then Some (Inl MakeLen)
      else
        let gridWidth = go_int (math_Ceil (real_of_int width / cellSize minDistance));
            gridHeight = go_int (math_Ceil (real_of_int height / cellSize minDistance))
        in if gridWidth < 0 \<or> (0 < gridWidth \<and> gridHeight < 0) then Some (Inl MakeLen)
           else
             case find_start R width height noiseMap seaLevel r of
               None \<Rightarrow> None
             | Some (Inl e) \<Rightarrow> Some (Inl e)
             | Some (Inr (startPoint, r1)) \<Rightarrow>
                 (let gridX = cell_of minDistance (X startPoint);
                      gridY = cell_of minDistance (Y startPoint)
                  in case grid_store gridWidth gridHeight (\<lambda>c. Point0) gridX gridY startPoint of
                       Inl e \<Rightarrow> Some (Inl e)
                     | Inr g \<Rightarrow>
                         active_loop R minDistance width height noiseMap seaLevel
                           gridWidth gridHeight
                           \<lparr>points = [startPoint], activePoints = [startPoint],
                            grid = g, rng = r1\<rparr>))"

section \<open>main.go\<close>

definition width :: int where
  "width = 512"

definition height :: int where
  "height = 512"


text \<open>The variables of \<^verbatim>\<open>main\<close> that \<^verbatim>\<open>updateImage\<close> reads: the seed and the parameters the
  sliders set. A run is modelled with these fixed for its duration.\<close>

record Config =
  seed :: "64 word"
  scale :: real
  octavesFloat :: real
  persistence :: real
  lacunarity :: real
  continentFreq :: real
  continentOctavesFloat :: real
  continentWeight :: real
  falloff :: real
  falloffWeight :: real
  seaLevel :: real
  minDistance :: int
  flowScale :: real
  flowStrength :: real


text \<open>The pixel colours of the rendered image.\<close>

datatype colour = deepWaterColor | waterColor | shoreColor | landColor | highLandColor
  | mountainColor | highMountainColor | poiColor





text \<open>The state \<^verbatim>\<open>updateImage\<close> shares with the rest of \<^verbatim>\<open>main\<close>: the image on display,
  the flag \<^verbatim>\<open>isGenerating\<close>, and the process-wide generator that \<^verbatim>\<open>main\<close> seeds from the
  clock for the Randomize button.\<close>

record 's shared =
  img :: "int \<times> int \<rightharpoonup> colour"
  isGenerating :: bool
  globalRand :: 's




section \<open>Concrete inputs\<close>


definition hash_perm :: "int list" where
  "hash_perm = [2, 4, 6, 3, 7, 10, 0, 1, 5, 8, 9] @ [11..255]"

definition hash_perlin :: Perlin where
  "hash_perlin = \<lparr>p = hash_perm @ hash_perm\<rparr>"

text \<open>A height field that is land everywhere on the 512 by 512 raster, and a script of
  draws: the start point \<open>(0,0)\<close>, a candidate 30 to the east of it, and then, from that
  point, a candidate 25 to the west.\<close>

definition land512 :: "Point \<rightharpoonup> real" where
  "land512 = (\<lambda>pt. if 0 \<le> X pt \<and> X pt < 512 \<and> 0 \<le> Y pt \<and> Y pt < 512 then Some 1.0 else None)"

definition origin_script :: script where
  "origin_script = \<lparr>int_draws = [0, 0, 0, 1], float_draws = [0, 1 / 10, 1 / 2, 0], perm_draw = []\<rparr>"

text \<open>The invariant of the sampler's loop, for the separation of the accepted points:
  every accepted point is inside the raster; every accepted point other than \<^verbatim>\<open>Point{}\<close>
  is the content of its own grid cell, which is inside the grid; and no accepted point
  is closer than \<open>minDistance\<close> to an earlier accepted point other than \<^verbatim>\<open>Point{}\<close>.\<close>

definition sampler_inv :: "int \<Rightarrow> int \<Rightarrow> int \<Rightarrow> int \<Rightarrow> int \<Rightarrow> 's sampler \<Rightarrow> bool" where
  "sampler_inv m w h gw gh st \<longleftrightarrow>
     (\<forall>q\<in>set (points st). 0 \<le> X q \<and> X q < w \<and> 0 \<le> Y q \<and> Y q < h) \<and>
     (\<forall>q\<in>set (points st). q \<noteq> Point0 \<longrightarrow>
        0 \<le> cell_of m (X q) \<and> cell_of m (X q) < gw \<and> 0 \<le> cell_of m (Y q) \<and> cell_of m (Y q) < gh \<and>
        grid st (cell_of m (X q), cell_of m (Y q)) = q) \<and>
     (\<forall>i j. i < j \<and> j < length (points st) \<and> points st ! i \<noteq> Point0
        \<longrightarrow> \<not> point_dist (points st ! j) (points st ! i) < real_of_int m)"

text \<open>A table is well formed when it has 512 entries, each in \<open>0..255\<close>.\<close>

definition table_ok :: "int list \<Rightarrow> bool" where
  "table_ok t = (length t = 512 \<and> list_all (\<lambda>v. 0 \<le> v \<and> v \<le> 255) t)"



section \<open>Facts about the primitives and the scripted generator\<close>

lemma index_Inr_iff: "index xs i = Inr v \<longleftrightarrow> 0 \<le> i \<and> i < int (length xs) \<and> v = xs ! nat i"
  by (auto simp: index_def)

lemma store_Inr_iff: "store xs i v = Inr ys \<longleftrightarrow> 0 \<le> i \<and> i < int (length xs) \<and> ys = xs[nat i := v]"
  by (auto simp: store_def)

lemma scripted_Intn_ok: "Intn_ok (scripted s0)"
  by (auto simp: Intn_ok_def scripted_def script_Intn_def split: list.splits)

lemma scripted_Float64_ok: "Float64_ok (scripted s0)"
  by (auto simp: Float64_ok_def scripted_def script_Float64_def split: list.splits)

lemma upto_perm_facts: "distinct [0..n - 1]" "set [0..n - 1] = {0..<n}"
  by (auto simp del: upto_rec_numeral)

lemma sort_eq_upto:
  assumes "sort xs = [0..n - 1]"
  shows "distinct xs \<and> set xs = {0..<n}"
proof -
  have "distinct (sort xs)" "set (sort xs) = {0..<n}"
    unfolding assms by (rule upto_perm_facts)+
  then show ?thesis by simp
qed

lemma scripted_Perm_ok: "Perm_ok (scripted s0)"
  unfolding Perm_ok_def scripted_def script_Perm_def
  using sort_eq_upto upto_perm_facts by (auto simp del: upto_rec_numeral)

section \<open>The permutation table\<close>

lemma NewPerlin_loop_result:
  assumes "length base = 256" "length tab = 512" "set todo \<subseteq> {0..255}"
  shows "\<exists>t. NewPerlin_loop base todo tab = Inr t \<and> length t = 512 \<and>
      (\<forall>j<512. t ! j = (if int j \<in> set todo then base ! j
                         else if int j - 256 \<in> set todo then base ! (j - 256)
                         else tab ! j))"
  using assms
proof (induction todo arbitrary: tab)
  case Nil
  then show ?case by simp
next
  case (Cons i rest)
  from Cons.prems have i: "0 \<le> i" "i \<le> 255" and rest: "set rest \<subseteq> {0..255}" by auto
  let ?t2 = "tab[nat i := base ! nat i, nat (256 + i) := base ! nat i]"
  have step: "NewPerlin_loop base (i # rest) tab = NewPerlin_loop base rest ?t2"
    using i Cons.prems by (simp add: index_def store_def)
  have len: "length ?t2 = 512" using Cons.prems by simp
  from Cons.IH[OF Cons.prems(1) len rest] obtain t where
    t: "NewPerlin_loop base rest ?t2 = Inr t" "length t = 512"
       "\<forall>j<512. t ! j = (if int j \<in> set rest then base ! j
                         else if int j - 256 \<in> set rest then base ! (j - 256)
                         else ?t2 ! j)" by blast
  have "\<forall>j<512. t ! j = (if int j \<in> set (i # rest) then base ! j
                         else if int j - 256 \<in> set (i # rest) then base ! (j - 256)
                         else tab ! j)"
  proof (intro allI impI)
    fix j :: nat assume j: "j < 512"
    show "t ! j = (if int j \<in> set (i # rest) then base ! j
                         else if int j - 256 \<in> set (i # rest) then base ! (j - 256)
                         else tab ! j)"
      using t(3)[rule_format, OF j] i j Cons.prems(2) rest
      by (auto simp: nth_list_update nat_eq_iff nat_add_distrib)
  qed
  with t step show ?case by auto
qed

lemma Perm_ok_base:
  assumes "Perm_ok R"
  shows "distinct (fst (Perm R s 256))" "set (fst (Perm R s 256)) = {0..<256}"
        "length (fst (Perm R s 256)) = 256"
proof -
  show d: "distinct (fst (Perm R s 256))" and s: "set (fst (Perm R s 256)) = {0..<256}"
    using assms unfolding Perm_ok_def by auto
  have "card (set (fst (Perm R s 256))) = length (fst (Perm R s 256))"
    using d by (rule distinct_card)
  then show "length (fst (Perm R s 256)) = 256" using s by simp
qed

lemma NewPerlin_loop_full:
  assumes "length base = 256"
  shows "NewPerlin_loop base [0..255] (replicate 512 0) = Inr (base @ base)"
proof -
  have "set [0..255] \<subseteq> {0..255::int}" by (simp del: upto_rec_numeral)
  from NewPerlin_loop_result[OF assms _ this, of "replicate 512 0"]
  obtain t where t: "NewPerlin_loop base [0..255] (replicate 512 0) = Inr t" "length t = 512"
    "\<forall>j<512. t ! j = (if int j \<in> set [0..255] then base ! j
                         else if int j - 256 \<in> set [0..255] then base ! (j - 256)
                         else replicate 512 0 ! j)" by (auto simp del: upto_rec_numeral)
  have "t = base @ base"
  proof (rule nth_equalityI)
    show "length t = length (base @ base)" using t(2) assms by simp
  next
    fix j assume "j < length t"
    then have j: "j < 512" using t(2) by simp
    show "t ! j = (base @ base) ! j"
      using t(3)[rule_format, OF j] j assms by (auto simp: nth_append simp del: upto_rec_numeral)
  qed
  with t(1) show ?thesis by simp
qed

lemma NewPerlin_table:
  assumes "Perm_ok R"
  shows "NewPerlin R sd =
     Inr \<lparr>p = fst (Perm R (NewSource R sd) 256) @ fst (Perm R (NewSource R sd) 256)\<rparr>"
  unfolding NewPerlin_def Let_def
  by (simp only: NewPerlin_loop_full[OF Perm_ok_base(3)[OF assms]] sum.case)

lemma take_length_append: "length b = n \<Longrightarrow> take n (b @ c) = b"
  by simp

lemma nth_length_append: "length b = n \<Longrightarrow> i < n \<Longrightarrow> (b @ b) ! (n + i) = (b @ b) ! i"
  by (simp add: nth_append)

lemma atLeastLessThan_256: "{0..<256} = {0..255::int}"
  by (rule set_eqI) (simp, arith)

text \<open>
  Claim C7. For every 64-bit seed, the table built by \<^verbatim>\<open>NewPerlin\<close> has 512 entries; its
  first 256 entries are a permutation of \<open>0..255\<close> (pairwise distinct, and as a set exactly
  \<open>{0..255}\<close>), and the entry at index \<open>256 + i\<close> equals the entry at index \<open>i\<close> for every
  \<open>i < 256\<close>. The generator is any implementation of \<^verbatim>\<open>math/rand\<close> whose \<^verbatim>\<open>Perm\<close> keeps
  its contract; construction never panics.
\<close>

theorem NewPerlin_permutation_table:
  assumes "Perm_ok R"
  shows "\<exists>t. NewPerlin R sd = Inr \<lparr>p = t\<rparr> \<and> length t = 512 \<and>
           distinct (take 256 t) \<and> set (take 256 t) = {0..255} \<and>
           (\<forall>i<256. t ! (256 + i) = t ! i)"
proof -
  let ?b = "fst (Perm R (NewSource R sd) 256)"
  note b = Perm_ok_base[OF assms, of "NewSource R sd"]
  have 1: "NewPerlin R sd = Inr \<lparr>p = ?b @ ?b\<rparr>" by (rule NewPerlin_table[OF assms])
  have 2: "length (?b @ ?b) = 512" using b(3) by simp
  have 3: "take 256 (?b @ ?b) = ?b" by (rule take_length_append[OF b(3)])
  have 4: "set ?b = {0..255}" using b(2) by (simp only: atLeastLessThan_256)
  have 5: "\<forall>i<256. (?b @ ?b) ! (256 + i) = (?b @ ?b) ! i"
    using nth_length_append[OF b(3)] by blast
  show ?thesis
    apply (rule exI[of _ "?b @ ?b"])
    apply (intro conjI)
    apply (rule 1)
    apply (rule 2)
    apply (simp only: 3 b(1))
    apply (simp only: 3 4)
    apply (rule 5)
    done
qed

theorem NewPerlin_permutation_table_witness:
  "Perm_ok (scripted \<lparr>int_draws = [], float_draws = [], perm_draw = []\<rparr>) \<and>
   (\<exists>t. NewPerlin (scripted \<lparr>int_draws = [], float_draws = [], perm_draw = []\<rparr>) 12345 = Inr \<lparr>p = t\<rparr> \<and>
        length t = 512 \<and> distinct (take 256 t) \<and> set (take 256 t) = {0..255} \<and>
        (\<forall>i<256. t ! (256 + i) = t ! i))"
  using NewPerlin_permutation_table[OF scripted_Perm_ok] scripted_Perm_ok by blast


section \<open>Table lookups of the noise function\<close>

lemma and_255_bounds: "0 \<le> (k::int) AND 255" "(k::int) AND 255 \<le> 255"
  by (simp_all add: AND_upper2)

lemma lookup2_in_bounds:
  assumes "table_ok (p pl)" "0 \<le> i" "i \<le> 256" "0 \<le> j" "j \<le> 256"
  shows "\<exists>v. lookup2 pl i j = Inr v \<and> 0 \<le> v \<and> v \<le> 255"
proof -
  have len: "length (p pl) = 512" and all: "\<And>k. k < 512 \<Longrightarrow> 0 \<le> p pl ! k \<and> p pl ! k \<le> 255"
    using assms(1) by (auto simp: table_ok_def list_all_length)
  have a: "0 \<le> p pl ! nat i" "p pl ! nat i \<le> 255" using all[of "nat i"] assms by auto
  have "nat (p pl ! nat i + j) < 512" using a assms by auto
  from all[OF this] show ?thesis
    using a assms len by (simp add: lookup2_def index_def)
qed

lemma Noise2DRaw_no_panic:
  assumes "table_ok (p pl)"
  shows "\<exists>v. Noise2DRaw pl x y freq = Inr v"
proof -
  let ?xi = "go_int (math_Floor (x * freq)) AND 255"
  let ?yi = "go_int (math_Floor (y * freq)) AND 255"
  have b: "0 \<le> ?xi" "?xi \<le> 255" "0 \<le> ?yi" "?yi \<le> 255" by (rule and_255_bounds)+
  obtain aa where aa: "lookup2 pl ?xi ?yi = Inr aa"
    using lookup2_in_bounds[OF assms, of ?xi ?yi] b by auto
  obtain ab where ab: "lookup2 pl ?xi (?yi + 1) = Inr ab"
    using lookup2_in_bounds[OF assms, of ?xi "?yi + 1"] b by auto
  obtain ba where ba: "lookup2 pl (?xi + 1) ?yi = Inr ba"
    using lookup2_in_bounds[OF assms, of "?xi + 1" ?yi] b by auto
  obtain bb where bb: "lookup2 pl (?xi + 1) (?yi + 1) = Inr bb"
    using lookup2_in_bounds[OF assms, of "?xi + 1" "?yi + 1"] b by auto
  show ?thesis
    by (simp add: Noise2DRaw_def Let_def aa ab ba bb)
qed

lemma NewPerlin_table_ok:
  assumes "Perm_ok R" "NewPerlin R sd = Inr pl"
  shows "table_ok (p pl)"
proof -
  let ?b = "fst (Perm R (NewSource R sd) 256)"
  note b = Perm_ok_base[OF assms(1), of "NewSource R sd"]
  have "pl = \<lparr>p = ?b @ ?b\<rparr>" using NewPerlin_table[OF assms(1), of sd] assms(2) by simp
  moreover have "list_all (\<lambda>v. 0 \<le> v \<and> v \<le> 255) ?b"
    using b(2) by (auto simp: list_all_iff)
  ultimately show ?thesis using b(3) by (simp add: table_ok_def)
qed

text \<open>
  Claim C10. For every real \<open>x\<close>, \<open>y\<close>, \<open>freq\<close>, the four chained table lookups of
  \<^verbatim>\<open>Noise2DRaw\<close> stay inside the 512-entry table that \<^verbatim>\<open>NewPerlin\<close> builds: the lattice
  indices \<open>xi\<close>, \<open>yi\<close> are masked to \<open>0..255\<close>, the first lookup is at \<open>xi\<close> or \<open>xi + 1\<close>
  (at most 256), every entry is at most 255, so the second lookup is at most at
  \<open>255 + 255 + 1 = 511\<close>; each lookup returns a hash and \<^verbatim>\<open>Noise2DRaw\<close> returns a value
  (no index is out of range).
\<close>

theorem Noise2DRaw_lookups_in_bounds:
  assumes "Perm_ok R"
  shows "\<exists>pl. NewPerlin R sd = Inr pl \<and> length (p pl) = 512 \<and>
     (let xi = go_int (math_Floor (x * freq)) AND 255;
          yi = go_int (math_Floor (y * freq)) AND 255
      in 0 \<le> xi \<and> xi \<le> 255 \<and> 0 \<le> yi \<and> yi \<le> 255 \<and>
         (\<forall>i\<in>{xi, xi + 1}. \<forall>j\<in>{yi, yi + 1}.
             0 \<le> i \<and> i < 512 \<and> 0 \<le> p pl ! nat i + j \<and> p pl ! nat i + j \<le> 511 \<and>
             (\<exists>h. lookup2 pl i j = Inr h)) \<and>
         (\<exists>v. Noise2DRaw pl x y freq = Inr v))"
proof -
  obtain pl where pl: "NewPerlin R sd = Inr pl" using NewPerlin_table[OF assms] by blast
  have ok: "table_ok (p pl)" by (rule NewPerlin_table_ok[OF assms pl])
  let ?xi = "go_int (math_Floor (x * freq)) AND 255"
  let ?yi = "go_int (math_Floor (y * freq)) AND 255"
  have b: "0 \<le> ?xi" "?xi \<le> 255" "0 \<le> ?yi" "?yi \<le> 255" by (rule and_255_bounds)+
  have len: "length (p pl) = 512"
    and ent: "\<And>k. k < 512 \<Longrightarrow> 0 \<le> p pl ! k \<and> p pl ! k \<le> 255"
    using ok by (auto simp: table_ok_def list_all_length)
  have cell: "0 \<le> i \<and> i < 512 \<and> 0 \<le> p pl ! nat i + j \<and> p pl ! nat i + j \<le> 511 \<and>
             (\<exists>h. lookup2 pl i j = Inr h)"
    if "i \<in> {?xi, ?xi + 1}" "j \<in> {?yi, ?yi + 1}" for i j
  proof -
    have i: "0 \<le> i" "i \<le> 256" and j: "0 \<le> j" "j \<le> 256" using that b by auto
    have "nat i < 512" using i by simp
    from ent[OF this] lookup2_in_bounds[OF ok i j] i j show ?thesis by auto
  qed
  have "\<exists>v. Noise2DRaw pl x y freq = Inr v" by (rule Noise2DRaw_no_panic[OF ok])
  with pl len b cell show ?thesis unfolding Let_def by blast
qed

theorem Noise2DRaw_lookups_in_bounds_witness:
  "Perm_ok (scripted \<lparr>int_draws = [], float_draws = [], perm_draw = []\<rparr>) \<and>
   (\<exists>pl. NewPerlin (scripted \<lparr>int_draws = [], float_draws = [], perm_draw = []\<rparr>) 12345 = Inr pl \<and>
      length (p pl) = 512 \<and>
      (\<exists>h. lookup2 pl ((go_int (math_Floor (511.75 * 0.006)) AND 255) + 1)
                       ((go_int (math_Floor (- 3 * 0.006)) AND 255) + 1) = Inr h) \<and>
      (\<exists>v. Noise2DRaw pl 511.75 (- 3) 0.006 = Inr v))"
proof -
  from Noise2DRaw_lookups_in_bounds[
      OF scripted_Perm_ok[of "\<lparr>int_draws = [], float_draws = [], perm_draw = []\<rparr>"],
      where sd = 12345 and x = "511.75" and freq = "0.006" and y = "- 3"]
  obtain pl where pl:
    "NewPerlin (scripted \<lparr>int_draws = [], float_draws = [], perm_draw = []\<rparr>) 12345 = Inr pl"
    "length (p pl) = 512"
    "\<forall>i\<in>{go_int (math_Floor (511.75 * 0.006)) AND 255, (go_int (math_Floor (511.75 * 0.006)) AND 255) + 1}.
       \<forall>j\<in>{go_int (math_Floor (- 3 * 0.006)) AND 255, (go_int (math_Floor (- 3 * 0.006)) AND 255) + 1}.
         0 \<le> i \<and> i < 512 \<and> 0 \<le> p pl ! nat i + j \<and> p pl ! nat i + j \<le> 511 \<and>
         (\<exists>h. lookup2 pl i j = Inr h)"
    "\<exists>v. Noise2DRaw pl 511.75 (- 3) 0.006 = Inr v"
    unfolding Let_def by blast
  from pl(3) have "\<exists>h. lookup2 pl ((go_int (math_Floor (511.75 * 0.006)) AND 255) + 1)
                       ((go_int (math_Floor (- 3 * 0.006)) AND 255) + 1) = Inr h"
    by blast
  with pl(1,2,4) scripted_Perm_ok show ?thesis by blast
qed


section \<open>The fractal sum\<close>











text \<open>
  The equality is one of real numbers. In float64 the repeated sum is rounded: with the
  rounding \<open>f64\<close> at every operation, the table \<open>hash_perlin\<close>, \<open>x = 0.5\<close>, \<open>y\<close> the
  float64 nearest to \<open>0.9\<close>, \<open>freq = 1\<close> and three octaves, the noise value is
  \<open>n = 0.5 - y\<close> (exactly), the sum \<open>n + n + n\<close> rounds up to the next even multiple of
  \<open>2\<^sup>-\<^sup>5\<^sup>2\<close>, and the quotient by 3 is the float64 number next to \<open>n\<close>. At this input the
  hashes of the four corners make both interpolations of \<^verbatim>\<open>Noise2DRaw\<close> exact, so the
  noise value is the same whether or not a multiplication and an addition are fused.
\<close>

lemma ulp_search_numeral:
  "ulp_search (numeral n) v =
     (if 2 \<le> v then 2 * ulp_search (pred_numeral n) (v / 2)
      else if v < 1 then ulp_search (pred_numeral n) (2 * v) / 2
      else 1 / 2 ^ 52)"
  by (simp add: numeral_eq_Suc)

lemmas f64_eval = f64_def ulp_def ulp_search_numeral round_even_def Let_def








lemma fade_fl_exact: "fade_fl (\<lambda>v. v) = fade"
  by (simp add: fun_eq_iff fade_fl_def fade_def)

lemma lerp_fl_exact: "lerp_fl (\<lambda>v. v) = lerp"
  by (simp add: fun_eq_iff lerp_fl_def lerp_def)

lemma grad_fl_exact: "grad_fl (\<lambda>v. v) = grad"
  by (simp add: fun_eq_iff grad_fl_def grad_def)

lemma Noise2DRaw_fl_exact: "Noise2DRaw_fl (\<lambda>v. v) pl x y f = Noise2DRaw pl x y f"
  unfolding Noise2DRaw_fl_def Noise2DRaw_def fade_fl_exact lerp_fl_exact grad_fl_exact ..

lemma FBM2DRaw_fl_loop_exact:
  "FBM2DRaw_fl_loop (\<lambda>v. v) pl x y pers lac k st = FBM2DRaw_loop pl x y pers lac k st"
  by (induction k arbitrary: st) (auto simp: Noise2DRaw_fl_exact split: sum.splits)

lemma FBM2DRaw_fl_exact: "FBM2DRaw_fl (\<lambda>v. v) pl x y f oct pers lac = FBM2DRaw pl x y f oct pers lac"
  by (simp add: FBM2DRaw_fl_def FBM2DRaw_def FBM2DRaw_fl_loop_exact)

lemma sort_hash_perm: "sort hash_perm = [0..255]"
proof (rule properties_for_sort)
  have split: "[0..255] = [0..10] @ [11..255]"
    using upto_split2[of 0 10 255] by (simp del: upto_rec_numeral)
  have "[0..10] = [0, 1, 2, 3, 4, 5, 6, 7, 8, 9, 10::int]" by (simp add: upto_rec1)
  then have "mset [0..10] = mset [2, 4, 6, 3, 7, 10, 0, 1, 5, 8, 9::int]" by (simp add: ac_simps)
  then show "mset [0..255] = mset hash_perm"
    unfolding split hash_perm_def by (simp only: mset_append)
  show "sorted [0..255]" by (simp del: upto_rec_numeral)
qed

text \<open>The table \<open>hash_perlin\<close> is the one \<^verbatim>\<open>NewPerlin\<close> builds when \<^verbatim>\<open>Perm(256)\<close> returns
  \<open>hash_perm\<close>.\<close>

lemma hash_perlin_built:
  "NewPerlin (scripted \<lparr>int_draws = [], float_draws = [], perm_draw = hash_perm\<rparr>) sd = Inr hash_perlin"
proof -
  have "fst (Perm (scripted \<lparr>int_draws = [], float_draws = [], perm_draw = hash_perm\<rparr>)
          (NewSource (scripted \<lparr>int_draws = [], float_draws = [], perm_draw = hash_perm\<rparr>) sd) 256)
        = hash_perm"
    by (simp add: scripted_def script_Perm_def sort_hash_perm del: upto_rec_numeral)
  then show ?thesis
    using NewPerlin_table[OF scripted_Perm_ok, of "\<lparr>int_draws = [], float_draws = [], perm_draw = hash_perm\<rparr>" sd]
    by (simp add: hash_perlin_def)
qed







section \<open>The height field\<close>









section \<open>The Poisson-disk sampler\<close>

subsection \<open>Candidates\<close>

lemma go_int_of_int: "go_int (real_of_int k) = k"
  by (simp add: go_int_def)






subsection \<open>Accepted points are on land\<close>

lemma try_candidates_land:
  assumes "try_candidates R m w h nm sea gw gh pt k st = Inr (found, st')"
    and "\<forall>q\<in>set (points st). sea + 0.05 \<le> noise_at nm q"
  shows "\<forall>q\<in>set (points st'). sea + 0.05 \<le> noise_at nm q"
  using assms
proof (induction k arbitrary: st)
  case 0
  then show ?case by simp
next
  case (Suc k)
  obtain a r1 where a: "Float64 R (rng st) = (a, r1)" by (cases "Float64 R (rng st)")
  obtain d r2 where d: "Float64 R r1 = (d, r2)" by (cases "Float64 R r1")
  let ?np = "candidate m pt a d"
  let ?st1 = "st\<lparr>rng := r2\<rparr>"
  have st1: "\<forall>q\<in>set (points ?st1). sea + 0.05 \<le> noise_at nm q" using Suc.prems(2) by simp
  show ?case
  proof (cases "0 \<le> X ?np \<and> X ?np < w \<and> 0 \<le> Y ?np \<and> Y ?np < h \<and> sea + 0.05 \<le> noise_at nm ?np")
    case False
    then have "try_candidates R m w h nm sea gw gh pt k ?st1 = Inr (found, st')"
      using Suc.prems(1) a d by (auto simp: Let_def split: if_splits)
    from Suc.IH[OF this st1] show ?thesis .
  next
    case True
    show ?thesis
    proof (cases "far_enough m gw gh (grid ?st1) ?np (cell_of m (X ?np)) (cell_of m (Y ?np))")
      case False
      then have "try_candidates R m w h nm sea gw gh pt k ?st1 = Inr (found, st')"
        using Suc.prems(1) a d True by (auto simp: Let_def split: if_splits)
      from Suc.IH[OF this st1] show ?thesis .
    next
      case far: True
      then have "points st' = points st @ [?np]"
        using Suc.prems(1) a d True by (auto simp: Let_def split: sum.splits if_splits)
      then show ?thesis using Suc.prems(2) True by auto
    qed
  qed
qed

lemma active_body_cases:
  assumes "(if activePoints st = [] then Some (Inr (points st, int (length (points st))))
      else (let (randomIndex, r1) = Intn R (rng st) (int (length (activePoints st)))
            in case index (activePoints st) randomIndex of
                 Inl e \<Rightarrow> Some (Inl e)
               | Inr pt \<Rightarrow>
                  (case try_candidates R m w h nm sea gw gh pt 30 (st\<lparr>rng := r1\<rparr>) of
                     Inl e \<Rightarrow> Some (Inl e)
                   | Inr (foundCandidate, st1) \<Rightarrow>
                       loop R m w h nm sea gw gh
                         (if \<not> foundCandidate
                          then st1\<lparr>activePoints :=
                                 take (nat randomIndex) (activePoints st1) @
                                 drop (nat randomIndex + 1) (activePoints st1)\<rparr>
                          else st1)))) = Some res"
  shows "(activePoints st = [] \<and> res = Inr (points st, int (length (points st))))
       \<or> (\<exists>e. res = Inl e)
       \<or> (\<exists>i r1 pt found st1. activePoints st \<noteq> [] \<and>
             Intn R (rng st) (int (length (activePoints st))) = (i, r1) \<and>
             index (activePoints st) i = Inr pt \<and>
             try_candidates R m w h nm sea gw gh pt 30 (st\<lparr>rng := r1\<rparr>) = Inr (found, st1) \<and>
             loop R m w h nm sea gw gh
               (if \<not> found
                then st1\<lparr>activePoints := take (nat i) (activePoints st1) @ drop (nat i + 1) (activePoints st1)\<rparr>
                else st1) = Some res)"
proof (cases "activePoints st = []")
  case True
  then show ?thesis using assms by simp
next
  case False
  obtain i r1 where i: "Intn R (rng st) (int (length (activePoints st))) = (i, r1)"
    by (cases "Intn R (rng st) (int (length (activePoints st)))")
  show ?thesis
  proof (cases "index (activePoints st) i")
    case (Inl e)
    then show ?thesis using assms False i by auto
  next
    case (Inr pt)
    show ?thesis
    proof (cases "try_candidates R m w h nm sea gw gh pt 30 (st\<lparr>rng := r1\<rparr>)")
      case (Inl e)
      then show ?thesis using assms False i Inr by auto
    next
      case t: (Inr fs)
      obtain found st1 where fs: "fs = (found, st1)" by (cases fs)
      have "loop R m w h nm sea gw gh
               (if \<not> found
                then st1\<lparr>activePoints := take (nat i) (activePoints st1) @ drop (nat i + 1) (activePoints st1)\<rparr>
                else st1) = Some res"
        using assms False i Inr t fs by simp
      then show ?thesis using False i Inr t fs by blast
    qed
  qed
qed

lemma active_loop_land_aux:
  assumes "active_loop R m w h nm sea gw gh st = Some res"
  shows "\<forall>pts n. res = Inr (pts, n) \<longrightarrow> (\<forall>q\<in>set (points st). sea + 0.05 \<le> noise_at nm q)
         \<longrightarrow> (\<forall>q\<in>set pts. sea + 0.05 \<le> noise_at nm q)"
proof (rule active_loop.raw_induct[where P = "\<lambda>R m w h nm sea gw gh st res.
         \<forall>pts n. res = Inr (pts, n) \<longrightarrow> (\<forall>q\<in>set (points st). sea + 0.05 \<le> noise_at nm q)
         \<longrightarrow> (\<forall>q\<in>set pts. sea + 0.05 \<le> noise_at nm q)", OF _ assms], goal_cases)
  case (1 loop R m w h nm sea gw gh st res)
  show ?case
  proof (intro allI impI)
    fix pts n
    assume res: "res = Inr (pts, n)" and inv: "\<forall>q\<in>set (points st). sea + 0.05 \<le> noise_at nm q"
    from active_body_cases[where loop = loop, OF 1(2)] res
    consider "activePoints st = []" "res = Inr (points st, int (length (points st)))"
      | i r1 pt found st1 where
          "try_candidates R m w h nm sea gw gh pt 30 (st\<lparr>rng := r1\<rparr>) = Inr (found, st1)"
          "loop R m w h nm sea gw gh
               (if \<not> found
                then st1\<lparr>activePoints := take (nat i) (activePoints st1) @ drop (nat i + 1) (activePoints st1)\<rparr>
                else st1) = Some res"
      by blast
    then show "\<forall>q\<in>set pts. sea + 0.05 \<le> noise_at nm q"
    proof cases
      case 1
      then show ?thesis using res inv by simp
    next
      case (2 i r1 pt found st1)
      let ?st2 = "if \<not> found
                  then st1\<lparr>activePoints := take (nat i) (activePoints st1) @ drop (nat i + 1) (activePoints st1)\<rparr>
                  else st1"
      have "\<forall>q\<in>set (points st1). sea + 0.05 \<le> noise_at nm q"
        by (rule try_candidates_land[OF 2(1)]) (use inv in simp)
      then have "\<forall>q\<in>set (points ?st2). sea + 0.05 \<le> noise_at nm q" by simp
      with \<open>\<And>m w h nm sea gw gh st b y. loop m w h nm sea gw gh st b = Some y \<Longrightarrow> _\<close>[OF 2(2)] res
      show ?thesis by blast
    qed
  qed
qed

lemma find_start_land_aux:
  assumes "find_start R w h nm sea r = Some res"
  shows "\<forall>sp r'. res = Inr (sp, r') \<longrightarrow> sea + 0.05 \<le> noise_at nm sp"
proof (rule find_start.raw_induct[where P = "\<lambda>R w h nm sea r res.
         \<forall>sp r'. res = Inr (sp, r') \<longrightarrow> sea + 0.05 \<le> noise_at nm sp", OF _ assms], goal_cases)
  case (1 fs R w h nm sea r res)
  show ?case
  proof (intro allI impI)
    fix sp r'
    assume res: "res = Inr (sp, r')"
    obtain x r1 where x: "Intn R r w = (x, r1)" by (cases "Intn R r w")
    obtain y r2 where y: "Intn R r1 h = (y, r2)" by (cases "Intn R r1 h")
    show "sea + 0.05 \<le> noise_at nm sp"
    proof (cases "sea + 0.05 \<le> noise_at nm \<lparr>X = x, Y = y\<rparr>")
      case True
      then show ?thesis using 1(2) res x y by (auto simp: Let_def split: if_splits)
    next
      case False
      then have "fs R w h nm sea r2 = Some res"
        using 1(2) res x y by (auto simp: Let_def split: if_splits)
      from 1(1)[OF this] res show ?thesis by blast
    qed
  qed
qed

text \<open>
  Claim C6. Every point of the accepted list that \<^verbatim>\<open>PoissonDisk\<close> returns satisfies the
  land predicate \<open>noiseMap[p] \<ge> seaLevel + 0.05\<close>, where \<open>seaLevel\<close> is the function's last
  argument (the threshold \<open>seaLevel + 0.05\<close> is computed inside the function).
\<close>

theorem PoissonDisk_points_on_land:
  assumes "PoissonDisk R m w h r nm sea = Some (Inr (pts, n))"
  shows "\<forall>pt\<in>set pts. noise_at nm pt \<ge> sea + 0.05"
proof -
  from assms obtain sp r1 where fs: "find_start R w h nm sea r = Some (Inr (sp, r1))"
    by (auto simp: PoissonDisk_def Let_def split: if_splits option.splits sum.splits)
  let ?gw = "go_int (math_Ceil (real_of_int w / cellSize m))"
  let ?gh = "go_int (math_Ceil (real_of_int h / cellSize m))"
  from assms fs obtain g where
    al: "active_loop R m w h nm sea ?gw ?gh \<lparr>points = [sp], activePoints = [sp], grid = g, rng = r1\<rparr>
         = Some (Inr (pts, n))"
    by (auto simp: PoissonDisk_def Let_def split: if_splits sum.splits)
  have "sea + 0.05 \<le> noise_at nm sp" using find_start_land_aux[OF fs] by blast
  with active_loop_land_aux[OF al] show ?thesis by simp
qed

subsection \<open>The search for the initial point\<close>

lemma find_start_all_ocean:
  assumes ok: "Intn_ok R" and w: "0 < w" and h: "0 < h"
    and ocean: "\<forall>x y. 0 \<le> x \<and> x < w \<and> 0 \<le> y \<and> y < h \<longrightarrow> noise_at nm \<lparr>X = x, Y = y\<rparr> < sea + 0.05"
  shows "find_start R w h nm sea r = None"
proof (cases "find_start R w h nm sea r")
  case None
  then show ?thesis .
next
  case (Some res)
  have "Intn_ok R \<and> 0 < w \<and> 0 < h \<and>
        (\<forall>x y. 0 \<le> x \<and> x < w \<and> 0 \<le> y \<and> y < h \<longrightarrow> noise_at nm \<lparr>X = x, Y = y\<rparr> < sea + 0.05)
        \<longrightarrow> False"
  proof (rule find_start.raw_induct[where P = "\<lambda>R w h nm sea r res.
           Intn_ok R \<and> 0 < w \<and> 0 < h \<and>
           (\<forall>x y. 0 \<le> x \<and> x < w \<and> 0 \<le> y \<and> y < h \<longrightarrow> noise_at nm \<lparr>X = x, Y = y\<rparr> < sea + 0.05)
           \<longrightarrow> False", OF _ Some], goal_cases)
    case (1 fs R w h nm sea r res)
    show ?case
    proof
      assume a: "Intn_ok R \<and> 0 < w \<and> 0 < h \<and>
        (\<forall>x y. 0 \<le> x \<and> x < w \<and> 0 \<le> y \<and> y < h \<longrightarrow> noise_at nm \<lparr>X = x, Y = y\<rparr> < sea + 0.05)"
      obtain x r1 where x: "Intn R r w = (x, r1)" by (cases "Intn R r w")
      obtain y r2 where y: "Intn R r1 h = (y, r2)" by (cases "Intn R r1 h")
      have "0 \<le> x \<and> x < w" using a x unfolding Intn_ok_def by (metis fst_conv)
      moreover have "0 \<le> y \<and> y < h" using a y unfolding Intn_ok_def by (metis fst_conv)
      ultimately have "noise_at nm \<lparr>X = x, Y = y\<rparr> < sea + 0.05" using a by blast
      then have "fs R w h nm sea r2 = Some res"
        using 1(2) a x y by (simp add: Let_def)
      from 1(1)[OF this] a show False by blast
    qed
  qed
  with assms show ?thesis by blast
qed

lemma grid_extent_nonneg:
  assumes "0 < m" "0 < w"
  shows "0 \<le> go_int (math_Ceil (real_of_int w / cellSize m))"
proof -
  have "0 < real_of_int w / cellSize m" using assms by (simp add: cellSize_def)
  then have "0 < \<lceil>real_of_int w / cellSize m\<rceil>" by simp
  then show ?thesis by (simp add: go_int_def math_Ceil_def)
qed

text \<open>
  Claim C3 (as amended). When no coordinate of the raster satisfies the land predicate
  (and \<open>minDistance\<close>, \<open>width\<close>, \<open>height\<close> are positive and \<^verbatim>\<open>r.Intn\<close> keeps its contract),
  the search for the initial point has no retry bound and raises no error: it runs
  forever, and \<^verbatim>\<open>PoissonDisk\<close> does not return.
\<close>

theorem PoissonDisk_all_ocean_never_returns:
  assumes "Intn_ok R" "0 < m" "0 < w" "0 < h"
    and "\<forall>x y. 0 \<le> x \<and> x < w \<and> 0 \<le> y \<and> y < h \<longrightarrow> noise_at nm \<lparr>X = x, Y = y\<rparr> < sea + 0.05"
  shows "PoissonDisk R m w h r nm sea = None"
proof -
  have fs: "find_start R w h nm sea r = None"
    by (rule find_start_all_ocean[OF assms(1,3,4,5)])
  have "0 \<le> go_int (math_Ceil (real_of_int w / cellSize m))"
       "0 \<le> go_int (math_Ceil (real_of_int h / cellSize m))"
    using assms by (simp_all add: grid_extent_nonneg)
  then show ?thesis using assms(2) fs by (simp add: PoissonDisk_def Let_def)
qed

theorem PoissonDisk_all_ocean_never_returns_witness:
  "Intn_ok (scripted \<lparr>int_draws = [3, 1], float_draws = [], perm_draw = []\<rparr>) \<and> (0::int) < 2 \<and> (0::int) < 4
   \<and> noise_at [\<lparr>X = 0, Y = 0\<rparr> \<mapsto> 3 / 10] \<lparr>X = 0, Y = 0\<rparr> < 45 / 100 + 0.05
   \<and> PoissonDisk (scripted \<lparr>int_draws = [3, 1], float_draws = [], perm_draw = []\<rparr>) 2 4 4
        \<lparr>int_draws = [3, 1], float_draws = [], perm_draw = []\<rparr> [\<lparr>X = 0, Y = 0\<rparr> \<mapsto> 3 / 10] (45 / 100) = None"
proof -
  have "\<forall>x y. 0 \<le> x \<and> x < 4 \<and> 0 \<le> y \<and> y < 4 \<longrightarrow>
          noise_at [\<lparr>X = 0, Y = 0\<rparr> \<mapsto> 3 / 10] \<lparr>X = x, Y = y\<rparr> < 45 / 100 + 0.05"
    by (simp add: noise_at_def)
  from PoissonDisk_all_ocean_never_returns[OF scripted_Intn_ok _ _ _ this, of 2]
  show ?thesis using scripted_Intn_ok by (simp add: noise_at_def)
qed

text \<open>On the empty height field of the 512 by 512 raster, with \<open>minDistance = 25\<close>, the call
  returns neither an error nor a list.\<close>

lemma noise_at_empty: "noise_at Map.empty pt = 0"
  by (simp add: noise_at_def)

theorem PoissonDisk_all_ocean_counterexample:
  "PoissonDisk (scripted \<lparr>int_draws = [], float_draws = [], perm_draw = []\<rparr>) 25 512 512
     \<lparr>int_draws = [], float_draws = [], perm_draw = []\<rparr> Map.empty (45 / 100) = None"
proof -
  have fs: "find_start (scripted \<lparr>int_draws = [], float_draws = [], perm_draw = []\<rparr>) 512 512 Map.empty (45 / 100)
          \<lparr>int_draws = [], float_draws = [], perm_draw = []\<rparr> = None"
    by (rule find_start_all_ocean[OF scripted_Intn_ok]) (simp_all add: noise_at_empty)
  have "0 \<le> go_int (math_Ceil (real_of_int 512 / cellSize 25))"
    by (rule grid_extent_nonneg) simp_all
  then show ?thesis using fs by (simp add: PoissonDisk_def Let_def)
qed

subsection \<open>A run that accepts the point \<open>(0,0)\<close>\<close>

lemma sqrt2_bounds: "1.41 < sqrt 2" "sqrt 2 < 1.415"
proof -
  show "1.41 < sqrt 2" by (rule real_less_rsqrt) (simp add: power2_eq_square)
  show "sqrt 2 < 1.415" by (rule real_less_lsqrt) (simp_all add: power2_eq_square)
qed

lemma cell_of_eq:
  assumes "0 < m" "0 \<le> v" "real_of_int k * real_of_int m \<le> real_of_int v * sqrt 2"
    "real_of_int v * sqrt 2 < (real_of_int k + 1) * real_of_int m"
  shows "cell_of m v = k"
proof -
  have m: "0 < real_of_int m" using assms(1) by simp
  have eq: "real_of_int v / cellSize m = real_of_int v * sqrt 2 / real_of_int m"
    by (simp add: cellSize_def)
  have "0 \<le> real_of_int v * sqrt 2 / real_of_int m" using m assms(2) by simp
  moreover have "\<lfloor>real_of_int v * sqrt 2 / real_of_int m\<rfloor> = k"
    using m assms(3,4) by (simp add: floor_eq_iff field_simps)
  ultimately show ?thesis by (simp add: cell_of_def go_int_def eq)
qed

lemma cell_of_25_0: "cell_of 25 0 = 0"
  by (rule cell_of_eq) simp_all

lemma cell_of_25_5: "cell_of 25 5 = 0"
  using sqrt2_bounds by (intro cell_of_eq) simp_all

lemma cell_of_25_30: "cell_of 25 30 = 1"
  using sqrt2_bounds by (intro cell_of_eq) simp_all

lemma grid_extent_512: "go_int (math_Ceil (512 / cellSize 25)) = 29"
proof -
  have eq: "512 / cellSize 25 = 512 * sqrt 2 / 25" by (simp add: cellSize_def)
  have "28 < 512 * sqrt 2 / 25" "512 * sqrt 2 / 25 \<le> 29" using sqrt2_bounds by simp_all
  then have "\<lceil>512 * sqrt 2 / 25\<rceil> = 29" by (simp add: ceiling_eq_iff)
  then show ?thesis by (simp add: go_int_def math_Ceil_def eq)
qed

lemma go_int_Round_of_int: "go_int (math_Round (real_of_int k)) = k"
  by (simp add: math_Round_def go_int_of_int) linarith

lemma candidate_east:
  assumes "candidate_dist m d = real_of_int k"
  shows "candidate m pt 0 d = \<lparr>X = X pt + k, Y = Y pt\<rparr>"
proof -
  have "go_int (math_Round (real_of_int (X pt) + real_of_int k)) = X pt + k"
    using go_int_Round_of_int[of "X pt + k"] by simp
  then show ?thesis
    by (simp add: candidate_def candidate_angle_def Let_def assms go_int_Round_of_int)
qed

lemma candidate_west:
  assumes "candidate_dist m d = real_of_int k"
  shows "candidate m pt (1 / 2) d = \<lparr>X = X pt - k, Y = Y pt\<rparr>"
proof -
  have "go_int (math_Round (real_of_int (X pt) - real_of_int k)) = X pt - k"
    using go_int_Round_of_int[of "X pt - k"] by simp
  then show ?thesis
    by (simp add: candidate_def candidate_angle_def Let_def assms go_int_Round_of_int)
qed

lemma candidate_dist_25: "candidate_dist 25 (1 / 10) = real_of_int 30"
  "candidate_dist 25 0 = real_of_int 25" "candidate_dist 25 (1 / 2) = real_of_int 50"
  by (simp_all add: candidate_dist_def)

lemma math_Pow_2: "math_Pow v 2 = v * v"
  by (simp add: math_Pow_def power2_eq_square)

lemma point_dist_eq: "point_dist a b = sqrt (real_of_int ((X a - X b)\<^sup>2 + (Y a - Y b)\<^sup>2))"
  by (simp add: point_dist_def math_Sqrt_def math_Pow_2 power2_eq_square)

lemma point_dist_less_iff:
  assumes "0 \<le> m"
  shows "point_dist a b < real_of_int m \<longleftrightarrow> (X a - X b)\<^sup>2 + (Y a - Y b)\<^sup>2 < m\<^sup>2"
proof -
  have "sqrt (real_of_int ((X a - X b)\<^sup>2 + (Y a - Y b)\<^sup>2)) < real_of_int m
        \<longleftrightarrow> real_of_int ((X a - X b)\<^sup>2 + (Y a - Y b)\<^sup>2) < (real_of_int m)\<^sup>2"
    using assms by (metis of_int_0_le_iff real_sqrt_abs abs_of_nonneg real_sqrt_less_iff)
  also have "\<dots> \<longleftrightarrow> (X a - X b)\<^sup>2 + (Y a - Y b)\<^sup>2 < m\<^sup>2"
    by (metis of_int_less_iff of_int_power)
  finally show ?thesis by (simp only: point_dist_eq)
qed

lemma fold_flag:
  "fold (\<lambda>c ok. if bad c then False else ok) cs b \<longleftrightarrow> b \<and> (\<forall>c\<in>set cs. \<not> bad c)"
  by (induction cs arbitrary: b) auto

lemma set_window: "set (window gx gy) = {gx - 2..gx + 2} \<times> {gy - 2..gy + 2}"
  by (auto simp: window_def simp del: upto_rec_numeral)

lemma far_enough_iff:
  "far_enough m gw gh g np gx gy \<longleftrightarrow>
     (\<forall>x\<in>{gx - 2..gx + 2}. \<forall>y\<in>{gy - 2..gy + 2}.
        0 \<le> x \<and> x < gw \<and> 0 \<le> y \<and> y < gh \<and> g (x, y) \<noteq> Point0
        \<longrightarrow> \<not> point_dist np (g (x, y)) < real_of_int m)"
proof -
  have "far_enough m gw gh g np gx gy =
        fold (\<lambda>c ok. if (case c of (x, y) \<Rightarrow> 0 \<le> x \<and> x < gw \<and> 0 \<le> y \<and> y < gh \<and> g (x, y) \<noteq> Point0
                       \<and> point_dist np (g (x, y)) < real_of_int m) then False else ok)
          (window gx gy) True"
    unfolding far_enough_def
    by (rule arg_cong[where f = "\<lambda>f. fold f (window gx gy) True"]) (auto simp: fun_eq_iff)
  then show ?thesis
    by (simp only: fold_flag set_window) auto
qed

lemma try_numeral:
  "try_candidates R m w h nm sea gw gh pt (numeral n) st =
     (let (a, r1) = Float64 R (rng st);
          (d, r2) = Float64 R r1;
          newPoint = candidate m pt a d;
          st1 = st\<lparr>rng := r2\<rparr>
      in if 0 \<le> X newPoint \<and> X newPoint < w \<and> 0 \<le> Y newPoint \<and> Y newPoint < h
            \<and> noise_at nm newPoint \<ge> sea + 0.05
         then (let gridX = cell_of m (X newPoint);
                   gridY = cell_of m (Y newPoint)
               in if far_enough m gw gh (grid st1) newPoint gridX gridY
                  then (case grid_store gw gh (grid st1) gridX gridY newPoint of
                          Inl e \<Rightarrow> Inl e
                        | Inr g \<Rightarrow>
                            Inr (True, st1\<lparr>points := points st1 @ [newPoint],
                                           activePoints := activePoints st1 @ [newPoint],
                                           grid := g\<rparr>))
                  else try_candidates R m w h nm sea gw gh pt (pred_numeral n) st1)
         else try_candidates R m w h nm sea gw gh pt (pred_numeral n) st1)"
  by (simp add: numeral_eq_Suc)

lemma try_exhausted:
  assumes "float_draws (rng st) = []" "X pt < 50"
  shows "try_candidates (scripted s0) 25 w h nm sea gw gh pt k st = Inr (False, st)"
  using assms
  by (induction k) (simp_all add: scripted_def script_Float64_def candidate_west[OF candidate_dist_25(3)])

lemma active_exhausted:
  assumes "int_draws (rng st) = []" "float_draws (rng st) = []"
    "\<forall>q\<in>set (activePoints st). X q < 50"
  shows "active_loop (scripted s0) 25 w h nm sea gw gh st
         = Some (Inr (points st, int (length (points st))))"
  using assms
proof (induction "activePoints st" arbitrary: st)
  case Nil
  then show ?case by (subst active_loop.simps) simp
next
  case (Cons q qs)
  let ?st' = "st\<lparr>activePoints := qs\<rparr>"
  have act: "activePoints st = q # qs" using Cons.hyps(2) by simp
  have q: "X q < 50" using Cons.prems(3) act by simp
  have t: "try_candidates (scripted s0) 25 w h nm sea gw gh q 30 st = Inr (False, st)"
    by (rule try_exhausted[OF Cons.prems(2) q])
  have "active_loop (scripted s0) 25 w h nm sea gw gh st
        = active_loop (scripted s0) 25 w h nm sea gw gh ?st'"
    by (subst active_loop.simps, insert Cons.prems(1) act t)
       (simp add: scripted_def script_Intn_def index_def)
  also have "\<dots> = Some (Inr (points ?st', int (length (points ?st'))))"
    by (rule Cons.hyps(1)) (use Cons.prems act in auto)
  finally show ?case by simp
qed

lemma noise_at_land512:
  "0 \<le> X pt \<Longrightarrow> X pt < 512 \<Longrightarrow> 0 \<le> Y pt \<Longrightarrow> Y pt < 512 \<Longrightarrow> noise_at land512 pt = 1"
  by (simp add: noise_at_def land512_def)

lemma find_start_origin:
  assumes "sea + 0.05 \<le> 1"
  shows "find_start (scripted s0) 512 512 land512 sea origin_script
   = Some (Inr (\<lparr>X = 0, Y = 0\<rparr>, \<lparr>int_draws = [0, 1], float_draws = [0, 1 / 10, 1 / 2, 0], perm_draw = []\<rparr>))"
  by (subst find_start.simps, insert assms)
     (simp add: scripted_def script_Intn_def origin_script_def noise_at_land512)

lemma grid_origin_empty: "((\<lambda>c. Point0)((0, 0) := \<lparr>X = 0, Y = 0\<rparr>)) = (\<lambda>c. Point0)"
  by (simp add: Point0_def fun_eq_iff)

lemma first_attempt:
  assumes "sea + 0.05 \<le> 1"
  shows "try_candidates (scripted s0) 25 512 512 land512 sea 29 29 \<lparr>X = 0, Y = 0\<rparr> 30
     \<lparr>points = [\<lparr>X = 0, Y = 0\<rparr>], activePoints = [\<lparr>X = 0, Y = 0\<rparr>], grid = (\<lambda>c. Point0),
      rng = \<lparr>int_draws = [1], float_draws = [0, 1 / 10, 1 / 2, 0], perm_draw = []\<rparr>\<rparr>
   = Inr (True,
     \<lparr>points = [\<lparr>X = 0, Y = 0\<rparr>, \<lparr>X = 30, Y = 0\<rparr>],
      activePoints = [\<lparr>X = 0, Y = 0\<rparr>, \<lparr>X = 30, Y = 0\<rparr>],
      grid = (\<lambda>c. Point0)((1, 0) := \<lparr>X = 30, Y = 0\<rparr>),
      rng = \<lparr>int_draws = [1], float_draws = [1 / 2, 0], perm_draw = []\<rparr>\<rparr>)"
proof -
  have fe: "far_enough 25 29 29 (\<lambda>c. Point0) \<lparr>X = 30, Y = 0\<rparr> 1 0"
    by (simp add: far_enough_iff)
  show ?thesis
    using assms
    by (simp add: try_numeral scripted_def script_Float64_def candidate_east[OF candidate_dist_25(1)]
        noise_at_land512 cell_of_25_30 cell_of_25_0 fe grid_store_def Let_def)
qed

lemma second_attempt:
  assumes "sea + 0.05 \<le> 1"
  shows "try_candidates (scripted s0) 25 512 512 land512 sea 29 29 \<lparr>X = 30, Y = 0\<rparr> 30
     \<lparr>points = [\<lparr>X = 0, Y = 0\<rparr>, \<lparr>X = 30, Y = 0\<rparr>],
      activePoints = [\<lparr>X = 0, Y = 0\<rparr>, \<lparr>X = 30, Y = 0\<rparr>],
      grid = (\<lambda>c. Point0)((1, 0) := \<lparr>X = 30, Y = 0\<rparr>),
      rng = \<lparr>int_draws = [], float_draws = [1 / 2, 0], perm_draw = []\<rparr>\<rparr>
   = Inr (True,
     \<lparr>points = [\<lparr>X = 0, Y = 0\<rparr>, \<lparr>X = 30, Y = 0\<rparr>, \<lparr>X = 5, Y = 0\<rparr>],
      activePoints = [\<lparr>X = 0, Y = 0\<rparr>, \<lparr>X = 30, Y = 0\<rparr>, \<lparr>X = 5, Y = 0\<rparr>],
      grid = (\<lambda>c. Point0)((1, 0) := \<lparr>X = 30, Y = 0\<rparr>, (0, 0) := \<lparr>X = 5, Y = 0\<rparr>),
      rng = \<lparr>int_draws = [], float_draws = [], perm_draw = []\<rparr>\<rparr>)"
proof -
  have d: "\<not> point_dist \<lparr>X = 5, Y = 0\<rparr> \<lparr>X = 30, Y = 0\<rparr> < real_of_int 25"
    by (subst point_dist_less_iff) simp_all
  have fe: "far_enough 25 29 29 ((\<lambda>c. Point0)((1, 0) := \<lparr>X = 30, Y = 0\<rparr>)) \<lparr>X = 5, Y = 0\<rparr> 0 0"
    using d by (simp add: far_enough_iff)
  show ?thesis
    using assms
    by (simp add: try_numeral scripted_def script_Float64_def candidate_west[OF candidate_dist_25(2)]
        noise_at_land512 cell_of_25_5 cell_of_25_0 fe grid_store_def Let_def)
qed

lemma origin_run:
  assumes "sea + 0.05 \<le> 1"
  shows "PoissonDisk (scripted s0) 25 512 512 origin_script land512 sea
   = Some (Inr ([\<lparr>X = 0, Y = 0\<rparr>, \<lparr>X = 30, Y = 0\<rparr>, \<lparr>X = 5, Y = 0\<rparr>], 3))"
proof -
  let ?L = "active_loop (scripted s0) 25 512 512 land512 sea 29 29"
  have 3: "?L \<lparr>points = [\<lparr>X = 0, Y = 0\<rparr>, \<lparr>X = 30, Y = 0\<rparr>, \<lparr>X = 5, Y = 0\<rparr>],
      activePoints = [\<lparr>X = 0, Y = 0\<rparr>, \<lparr>X = 30, Y = 0\<rparr>, \<lparr>X = 5, Y = 0\<rparr>],
      grid = (\<lambda>c. Point0)((1, 0) := \<lparr>X = 30, Y = 0\<rparr>, (0, 0) := \<lparr>X = 5, Y = 0\<rparr>),
      rng = \<lparr>int_draws = [], float_draws = [], perm_draw = []\<rparr>\<rparr>
     = Some (Inr ([\<lparr>X = 0, Y = 0\<rparr>, \<lparr>X = 30, Y = 0\<rparr>, \<lparr>X = 5, Y = 0\<rparr>], 3))"
    by (subst active_exhausted) simp_all
  have 2: "?L \<lparr>points = [\<lparr>X = 0, Y = 0\<rparr>, \<lparr>X = 30, Y = 0\<rparr>],
      activePoints = [\<lparr>X = 0, Y = 0\<rparr>, \<lparr>X = 30, Y = 0\<rparr>],
      grid = (\<lambda>c. Point0)((1, 0) := \<lparr>X = 30, Y = 0\<rparr>),
      rng = \<lparr>int_draws = [1], float_draws = [1 / 2, 0], perm_draw = []\<rparr>\<rparr>
     = Some (Inr ([\<lparr>X = 0, Y = 0\<rparr>, \<lparr>X = 30, Y = 0\<rparr>, \<lparr>X = 5, Y = 0\<rparr>], 3))"
    apply (subst active_loop.simps)
    apply (simp add: scripted_def script_Intn_def index_def)
    apply (simp add: scripted_def[symmetric] second_attempt[OF assms] 3)
    done
  have 1: "?L \<lparr>points = [\<lparr>X = 0, Y = 0\<rparr>], activePoints = [\<lparr>X = 0, Y = 0\<rparr>], grid = (\<lambda>c. Point0),
      rng = \<lparr>int_draws = [0, 1], float_draws = [0, 1 / 10, 1 / 2, 0], perm_draw = []\<rparr>\<rparr>
     = Some (Inr ([\<lparr>X = 0, Y = 0\<rparr>, \<lparr>X = 30, Y = 0\<rparr>, \<lparr>X = 5, Y = 0\<rparr>], 3))"
    apply (subst active_loop.simps)
    apply (simp add: scripted_def script_Intn_def index_def)
    apply (simp add: scripted_def[symmetric] first_attempt[OF assms] 2)
    done
  show ?thesis
    by (simp add: PoissonDisk_def grid_extent_512 find_start_origin[OF assms] Let_def cell_of_25_0
        grid_store_def grid_origin_empty 1)
qed

theorem PoissonDisk_points_on_land_witness:
  "PoissonDisk (scripted origin_script) 25 512 512 origin_script land512 (45 / 100)
     = Some (Inr ([\<lparr>X = 0, Y = 0\<rparr>, \<lparr>X = 30, Y = 0\<rparr>, \<lparr>X = 5, Y = 0\<rparr>], 3))
   \<and> noise_at land512 \<lparr>X = 0, Y = 0\<rparr> \<ge> 45 / 100 + 0.05
   \<and> noise_at land512 \<lparr>X = 30, Y = 0\<rparr> \<ge> 45 / 100 + 0.05
   \<and> noise_at land512 \<lparr>X = 5, Y = 0\<rparr> \<ge> 45 / 100 + 0.05"
proof -
  have run: "PoissonDisk (scripted origin_script) 25 512 512 origin_script land512 (45 / 100)
     = Some (Inr ([\<lparr>X = 0, Y = 0\<rparr>, \<lparr>X = 30, Y = 0\<rparr>, \<lparr>X = 5, Y = 0\<rparr>], 3))"
    by (rule origin_run) simp
  from PoissonDisk_points_on_land[OF run] run show ?thesis by simp
qed

text \<open>
  Claim C1. The claim is that any two points of the list that \<^verbatim>\<open>PoissonDisk\<close> returns are
  at least \<open>minDistance\<close> apart. The run below returns: the height field is land
  everywhere on the 512 by 512 raster, \<open>minDistance = 25\<close>, the start point is \<open>(0,0)\<close>,
  the candidate \<open>(30,0)\<close> is accepted, and then the candidate \<open>(5,0)\<close>, drawn around
  \<open>(30,0)\<close>, is accepted too, at distance 5 from \<open>(0,0)\<close>. The grid cell of \<open>(0,0)\<close> holds
  the value \<^verbatim>\<open>Point{}\<close>, which the separation check takes for an empty cell.
\<close>

theorem PoissonDisk_origin_collision:
  "PoissonDisk (scripted origin_script) 25 512 512 origin_script land512 (45 / 100)
     = Some (Inr ([\<lparr>X = 0, Y = 0\<rparr>, \<lparr>X = 30, Y = 0\<rparr>, \<lparr>X = 5, Y = 0\<rparr>], 3))
   \<and> point_dist \<lparr>X = 5, Y = 0\<rparr> \<lparr>X = 0, Y = 0\<rparr> = 5
   \<and> point_dist \<lparr>X = 5, Y = 0\<rparr> \<lparr>X = 0, Y = 0\<rparr> < real_of_int 25"
proof -
  have run: "PoissonDisk (scripted origin_script) 25 512 512 origin_script land512 (45 / 100)
     = Some (Inr ([\<lparr>X = 0, Y = 0\<rparr>, \<lparr>X = 30, Y = 0\<rparr>, \<lparr>X = 5, Y = 0\<rparr>], 3))"
    by (rule origin_run) simp
  have d: "point_dist \<lparr>X = 5, Y = 0\<rparr> \<lparr>X = 0, Y = 0\<rparr> = 5"
    by (simp add: point_dist_eq)
  from run d show ?thesis by simp
qed


subsection \<open>Separation from every accepted point other than \<open>(0,0)\<close>\<close>

lemma cellSize_pos: "0 < m \<Longrightarrow> 0 < cellSize m"
  by (simp add: cellSize_def)

lemma cell_of_floor:
  assumes "0 < m" "0 \<le> v"
  shows "cell_of m v = \<lfloor>real_of_int v / cellSize m\<rfloor>"
  using assms cellSize_pos[OF assms(1)] by (simp add: cell_of_def go_int_def)

lemma same_cell_close:
  assumes "0 < m" "0 \<le> a" "0 \<le> b" "cell_of m a = cell_of m b"
  shows "2 * (a - b)\<^sup>2 < m\<^sup>2"
proof -
  let ?c = "cellSize m"
  have c: "0 < ?c" by (rule cellSize_pos[OF assms(1)])
  have "\<lfloor>real_of_int a / ?c\<rfloor> = \<lfloor>real_of_int b / ?c\<rfloor>"
    using assms by (simp add: cell_of_floor)
  then have "\<bar>real_of_int a / ?c - real_of_int b / ?c\<bar> < 1" by linarith
  then have "\<bar>real_of_int a - real_of_int b\<bar> / ?c < 1"
    using c by (simp add: diff_divide_distrib[symmetric])
  then have lt: "\<bar>real_of_int a - real_of_int b\<bar> < ?c" using c by (simp add: field_simps)
  have "(real_of_int a - real_of_int b)\<^sup>2 = \<bar>real_of_int a - real_of_int b\<bar>\<^sup>2" by simp
  also have "\<dots> < ?c\<^sup>2" using lt by (intro power_strict_mono) simp_all
  also have "?c\<^sup>2 = (real_of_int m)\<^sup>2 / 2" by (simp add: cellSize_def power_divide)
  finally have "2 * (real_of_int a - real_of_int b)\<^sup>2 < (real_of_int m)\<^sup>2" by simp
  then have "real_of_int (2 * (a - b)\<^sup>2) < real_of_int (m\<^sup>2)" by simp
  then show ?thesis by (simp only: of_int_less_iff)
qed

lemma close_cells_near:
  assumes "0 < m" "0 \<le> a" "0 \<le> b" "(a - b)\<^sup>2 < m\<^sup>2"
  shows "\<bar>cell_of m a - cell_of m b\<bar> \<le> 2"
proof -
  let ?c = "cellSize m"
  have c: "0 < ?c" by (rule cellSize_pos[OF assms(1)])
  have "\<bar>a - b\<bar> < m"
    using assms(1,4) by (metis abs_of_pos power2_less_imp_less power2_abs less_le)
  then have "\<bar>real_of_int a - real_of_int b\<bar> < real_of_int m"
    by (metis of_int_abs of_int_diff of_int_less_iff)
  then have "\<bar>real_of_int a - real_of_int b\<bar> / ?c < real_of_int m / ?c"
    using c by (simp add: divide_strict_right_mono)
  moreover have "real_of_int m / ?c = sqrt 2" using assms(1) by (simp add: cellSize_def)
  moreover have "sqrt 2 < 2" by (rule real_less_lsqrt) simp_all
  ultimately have "\<bar>real_of_int a - real_of_int b\<bar> / ?c < 2" by simp
  then have "\<bar>real_of_int a / ?c - real_of_int b / ?c\<bar> < 2"
    using c by (simp add: diff_divide_distrib[symmetric])
  then have "\<bar>\<lfloor>real_of_int a / ?c\<rfloor> - \<lfloor>real_of_int b / ?c\<rfloor>\<bar> \<le> 2" by linarith
  then show ?thesis using assms by (simp add: cell_of_floor)
qed

lemma grid_store_Inr:
  "grid_store gw gh g gx gy v = Inr g' \<longleftrightarrow>
     0 \<le> gx \<and> gx < gw \<and> 0 \<le> gy \<and> gy < gh \<and> g' = g((gx, gy) := v)"
  by (auto simp: grid_store_def)

lemma accept_far:
  assumes m: "0 < m" and inv: "sampler_inv m w h gw gh st"
    and c: "0 \<le> X c" "0 \<le> Y c"
    and far: "far_enough m gw gh (grid st) c (cell_of m (X c)) (cell_of m (Y c))"
    and q: "q \<in> set (points st)" "q \<noteq> Point0"
  shows "\<not> point_dist c q < real_of_int m"
proof
  assume lt: "point_dist c q < real_of_int m"
  have qb: "0 \<le> X q" "0 \<le> Y q" using inv q(1) unfolding sampler_inv_def by blast+
  have cellq: "0 \<le> cell_of m (X q) \<and> cell_of m (X q) < gw \<and> 0 \<le> cell_of m (Y q) \<and> cell_of m (Y q) < gh \<and>
    grid st (cell_of m (X q), cell_of m (Y q)) = q"
    using inv q unfolding sampler_inv_def by blast
  have m0: "0 \<le> m" using m by simp
  have sq: "(X c - X q)\<^sup>2 + (Y c - Y q)\<^sup>2 < m\<^sup>2"
    using lt by (simp only: point_dist_less_iff[OF m0])
  have nn: "0 \<le> (X c - X q)\<^sup>2" "0 \<le> (Y c - Y q)\<^sup>2" by simp_all
  have sx: "(X c - X q)\<^sup>2 < m\<^sup>2" and sy: "(Y c - Y q)\<^sup>2 < m\<^sup>2"
    using sq nn by linarith+
  have nx: "\<bar>cell_of m (X c) - cell_of m (X q)\<bar> \<le> 2"
    by (rule close_cells_near[OF m c(1) qb(1) sx])
  have ny: "\<bar>cell_of m (Y c) - cell_of m (Y q)\<bar> \<le> 2"
    by (rule close_cells_near[OF m c(2) qb(2) sy])
  have wx: "cell_of m (X q) \<in> {cell_of m (X c) - 2..cell_of m (X c) + 2}"
    using nx by (simp add: abs_le_iff)
  have wy: "cell_of m (Y q) \<in> {cell_of m (Y c) - 2..cell_of m (Y c) + 2}"
    using ny by (simp add: abs_le_iff)
  from far have all: "\<forall>x\<in>{cell_of m (X c) - 2..cell_of m (X c) + 2}.
        \<forall>y\<in>{cell_of m (Y c) - 2..cell_of m (Y c) + 2}.
        0 \<le> x \<and> x < gw \<and> 0 \<le> y \<and> y < gh \<and> grid st (x, y) \<noteq> Point0
        \<longrightarrow> \<not> point_dist c (grid st (x, y)) < real_of_int m"
    by (simp only: far_enough_iff)
  from all[rule_format, OF wx wy] cellq q(2)
  have "\<not> point_dist c (grid st (cell_of m (X q), cell_of m (Y q))) < real_of_int m"
    by simp
  with lt cellq show False by simp
qed

lemma accept_inv:
  assumes m: "0 < m" and inv: "sampler_inv m w h gw gh st"
    and c: "0 \<le> X c" "X c < w" "0 \<le> Y c" "Y c < h"
    and far: "far_enough m gw gh (grid st) c (cell_of m (X c)) (cell_of m (Y c))"
    and st: "grid_store gw gh (grid st) (cell_of m (X c)) (cell_of m (Y c)) c = Inr g"
    and pts: "points st' = points st @ [c]" and g: "grid st' = g"
  shows "sampler_inv m w h gw gh st'"
proof -
  note far_q = accept_far[OF m inv c(1,3) far]
  from st have rng: "0 \<le> cell_of m (X c)" "cell_of m (X c) < gw" "0 \<le> cell_of m (Y c)" "cell_of m (Y c) < gh"
    and g_eq: "g = (grid st)((cell_of m (X c), cell_of m (Y c)) := c)"
    by (auto simp: grid_store_Inr)
  have 1: "\<forall>q\<in>set (points st'). 0 \<le> X q \<and> X q < w \<and> 0 \<le> Y q \<and> Y q < h"
    using inv c pts unfolding sampler_inv_def by auto
  have 2: "\<forall>q\<in>set (points st'). q \<noteq> Point0 \<longrightarrow>
        0 \<le> cell_of m (X q) \<and> cell_of m (X q) < gw \<and> 0 \<le> cell_of m (Y q) \<and> cell_of m (Y q) < gh \<and>
        grid st' (cell_of m (X q), cell_of m (Y q)) = q"
  proof (intro ballI impI)
    fix q assume q: "q \<in> set (points st')" "q \<noteq> Point0"
    show "0 \<le> cell_of m (X q) \<and> cell_of m (X q) < gw \<and> 0 \<le> cell_of m (Y q) \<and> cell_of m (Y q) < gh \<and>
        grid st' (cell_of m (X q), cell_of m (Y q)) = q"
    proof (cases "q = c")
      case True
      then show ?thesis using rng g g_eq by simp
    next
      case False
      then have qin: "q \<in> set (points st)" using q(1) pts by simp
      have qb: "0 \<le> X q" "0 \<le> Y q" using inv qin by (auto simp: sampler_inv_def)
      have old: "0 \<le> cell_of m (X q) \<and> cell_of m (X q) < gw \<and> 0 \<le> cell_of m (Y q) \<and> cell_of m (Y q) < gh \<and>
        grid st (cell_of m (X q), cell_of m (Y q)) = q"
        using inv qin q(2) by (auto simp: sampler_inv_def)
      have "(cell_of m (X q), cell_of m (Y q)) \<noteq> (cell_of m (X c), cell_of m (Y c))"
      proof
        assume "(cell_of m (X q), cell_of m (Y q)) = (cell_of m (X c), cell_of m (Y c))"
        then have e: "cell_of m (X c) = cell_of m (X q)" "cell_of m (Y c) = cell_of m (Y q)" by simp_all
        have "2 * (X c - X q)\<^sup>2 < m\<^sup>2" "2 * (Y c - Y q)\<^sup>2 < m\<^sup>2"
          using same_cell_close[OF m c(1) qb(1) e(1)] same_cell_close[OF m c(3) qb(2) e(2)] by simp_all
        then have "(X c - X q)\<^sup>2 + (Y c - Y q)\<^sup>2 < m\<^sup>2" by linarith
        then have "point_dist c q < real_of_int m" using m by (simp add: point_dist_less_iff)
        with far_q[OF qin q(2)] show False by simp
      qed
      then show ?thesis using old g g_eq by auto
    qed
  qed
  have 3: "\<forall>i j. i < j \<and> j < length (points st') \<and> points st' ! i \<noteq> Point0
        \<longrightarrow> \<not> point_dist (points st' ! j) (points st' ! i) < real_of_int m"
  proof (intro allI impI)
    fix i j assume a: "i < j \<and> j < length (points st') \<and> points st' ! i \<noteq> Point0"
    then have i: "i < length (points st)" using pts by simp
    then have pi: "points st' ! i = points st ! i" using pts by (simp add: nth_append)
    show "\<not> point_dist (points st' ! j) (points st' ! i) < real_of_int m"
    proof (cases "j < length (points st)")
      case True
      then have "points st' ! j = points st ! j" using pts by (simp add: nth_append)
      with inv a True pi show ?thesis by (auto simp: sampler_inv_def)
    next
      case False
      then have "j = length (points st)" using a pts by simp
      then have pj: "points st' ! j = c" using pts by simp
      have "points st ! i \<in> set (points st)" using i by simp
      from far_q[OF this] a pi pj show ?thesis by simp
    qed
  qed
  from 1 2 3 show ?thesis unfolding sampler_inv_def by blast
qed

lemma sampler_inv_cong:
  assumes "sampler_inv m w h gw gh st" "points st' = points st" "grid st' = grid st"
  shows "sampler_inv m w h gw gh st'"
  using assms by (simp add: sampler_inv_def)

lemma try_candidates_inv:
  assumes "0 < m"
    and "try_candidates R m w h nm sea gw gh pt k st = Inr (found, st')"
    and "sampler_inv m w h gw gh st"
  shows "sampler_inv m w h gw gh st'"
  using assms(2,3)
proof (induction k arbitrary: st)
  case 0
  then show ?case by simp
next
  case (Suc k)
  obtain a r1 where a: "Float64 R (rng st) = (a, r1)" by (cases "Float64 R (rng st)")
  obtain d r2 where d: "Float64 R r1 = (d, r2)" by (cases "Float64 R r1")
  let ?np = "candidate m pt a d"
  let ?st1 = "st\<lparr>rng := r2\<rparr>"
  have st1: "sampler_inv m w h gw gh ?st1"
    by (rule sampler_inv_cong[OF Suc.prems(2)]) simp_all
  show ?case
  proof (cases "0 \<le> X ?np \<and> X ?np < w \<and> 0 \<le> Y ?np \<and> Y ?np < h \<and> sea + 0.05 \<le> noise_at nm ?np")
    case False
    then have "try_candidates R m w h nm sea gw gh pt k ?st1 = Inr (found, st')"
      using Suc.prems(1) a d by (auto simp: Let_def split: if_splits)
    from Suc.IH[OF this st1] show ?thesis .
  next
    case True
    show ?thesis
    proof (cases "far_enough m gw gh (grid ?st1) ?np (cell_of m (X ?np)) (cell_of m (Y ?np))")
      case False
      then have "try_candidates R m w h nm sea gw gh pt k ?st1 = Inr (found, st')"
        using Suc.prems(1) a d True by (auto simp: Let_def split: if_splits)
      from Suc.IH[OF this st1] show ?thesis .
    next
      case far: True
      from Suc.prems(1) a d True far obtain g where
        g: "grid_store gw gh (grid ?st1) (cell_of m (X ?np)) (cell_of m (Y ?np)) ?np = Inr g"
        and st': "st' = ?st1\<lparr>points := points ?st1 @ [?np],
                            activePoints := activePoints ?st1 @ [?np], grid := g\<rparr>"
        by (auto simp: Let_def split: sum.splits if_splits)
      show ?thesis
        by (rule accept_inv[OF assms(1) st1 _ _ _ _ far g]) (use True st' in simp_all)
    qed
  qed
qed

lemma active_loop_inv_aux:
  assumes "active_loop R m w h nm sea gw gh st = Some res"
  shows "\<forall>pts n. res = Inr (pts, n) \<longrightarrow> 0 < m \<longrightarrow> sampler_inv m w h gw gh st
         \<longrightarrow> ((\<forall>q\<in>set pts. 0 \<le> X q \<and> X q < w \<and> 0 \<le> Y q \<and> Y q < h) \<and>
              (\<forall>i j. i < j \<and> j < length pts \<and> pts ! i \<noteq> Point0
                 \<longrightarrow> \<not> point_dist (pts ! j) (pts ! i) < real_of_int m))"
proof (rule active_loop.raw_induct[where P = "\<lambda>R m w h nm sea gw gh st res.
         \<forall>pts n. res = Inr (pts, n) \<longrightarrow> 0 < m \<longrightarrow> sampler_inv m w h gw gh st
         \<longrightarrow> ((\<forall>q\<in>set pts. 0 \<le> X q \<and> X q < w \<and> 0 \<le> Y q \<and> Y q < h) \<and>
              (\<forall>i j. i < j \<and> j < length pts \<and> pts ! i \<noteq> Point0
                 \<longrightarrow> \<not> point_dist (pts ! j) (pts ! i) < real_of_int m))", OF _ assms], goal_cases)
  case (1 loop R m w h nm sea gw gh st res)
  show ?case
  proof (intro allI impI)
    fix pts n
    assume res: "res = Inr (pts, n)" and m: "0 < m" and inv: "sampler_inv m w h gw gh st"
    from active_body_cases[where loop = loop, OF 1(2)] res
    consider "activePoints st = []" "res = Inr (points st, int (length (points st)))"
      | i r1 pt found st1 where
          "try_candidates R m w h nm sea gw gh pt 30 (st\<lparr>rng := r1\<rparr>) = Inr (found, st1)"
          "loop R m w h nm sea gw gh
               (if \<not> found
                then st1\<lparr>activePoints := take (nat i) (activePoints st1) @ drop (nat i + 1) (activePoints st1)\<rparr>
                else st1) = Some res"
      by blast
    then show "(\<forall>q\<in>set pts. 0 \<le> X q \<and> X q < w \<and> 0 \<le> Y q \<and> Y q < h) \<and>
              (\<forall>i j. i < j \<and> j < length pts \<and> pts ! i \<noteq> Point0
                 \<longrightarrow> \<not> point_dist (pts ! j) (pts ! i) < real_of_int m)"
    proof cases
      case 1
      then have "pts = points st" using res by simp
      then show ?thesis using inv unfolding sampler_inv_def by blast
    next
      case (2 i r1 pt found st1)
      let ?st2 = "if \<not> found
                  then st1\<lparr>activePoints := take (nat i) (activePoints st1) @ drop (nat i + 1) (activePoints st1)\<rparr>
                  else st1"
      have "sampler_inv m w h gw gh (st\<lparr>rng := r1\<rparr>)"
        by (rule sampler_inv_cong[OF inv]) simp_all
      from try_candidates_inv[OF m 2(1) this] have "sampler_inv m w h gw gh st1" .
      then have "sampler_inv m w h gw gh ?st2"
        by (auto intro: sampler_inv_cong)
      with \<open>\<And>m w h nm sea gw gh st b y. loop m w h nm sea gw gh st b = Some y \<Longrightarrow> _\<close>[OF 2(2)] res m
      show ?thesis by blast
    qed
  qed
qed

lemma find_start_in_raster_aux:
  assumes "find_start R w h nm sea r = Some res"
  shows "\<forall>sp r'. res = Inr (sp, r') \<longrightarrow> Intn_ok R
         \<longrightarrow> 0 \<le> X sp \<and> X sp < w \<and> 0 \<le> Y sp \<and> Y sp < h"
proof (rule find_start.raw_induct[where P = "\<lambda>R w h nm sea r res.
         \<forall>sp r'. res = Inr (sp, r') \<longrightarrow> Intn_ok R
         \<longrightarrow> 0 \<le> X sp \<and> X sp < w \<and> 0 \<le> Y sp \<and> Y sp < h", OF _ assms], goal_cases)
  case (1 fs R w h nm sea r res)
  show ?case
  proof (intro allI impI)
    fix sp r'
    assume res: "res = Inr (sp, r')" and ok: "Intn_ok R"
    obtain x r1 where x: "Intn R r w = (x, r1)" by (cases "Intn R r w")
    obtain y r2 where y: "Intn R r1 h = (y, r2)" by (cases "Intn R r1 h")
    have w: "0 < w" and h: "0 < h" using 1(2) res x by (auto simp: Let_def split: if_splits)
    have xr: "0 \<le> x \<and> x < w" using ok x w unfolding Intn_ok_def by (metis fst_conv)
    have yr: "0 \<le> y \<and> y < h" using ok y h unfolding Intn_ok_def by (metis fst_conv)
    show "0 \<le> X sp \<and> X sp < w \<and> 0 \<le> Y sp \<and> Y sp < h"
    proof (cases "sea + 0.05 \<le> noise_at nm \<lparr>X = x, Y = y\<rparr>")
      case True
      then have "sp = \<lparr>X = x, Y = y\<rparr>" using 1(2) res x y w h by (auto simp: Let_def)
      then show ?thesis using xr yr by simp
    next
      case False
      then have "fs R w h nm sea r2 = Some res"
        using 1(2) res x y w h by (auto simp: Let_def)
      from 1(1)[OF this] res ok show ?thesis by blast
    qed
  qed
qed

lemma PoissonDisk_final_inv:
  assumes run: "PoissonDisk R m w h r nm sea = Some (Inr (pts, n))" and m: "0 < m" and ok: "Intn_ok R"
  shows "(\<forall>q\<in>set pts. 0 \<le> X q \<and> X q < w \<and> 0 \<le> Y q \<and> Y q < h) \<and>
         (\<forall>i j. i < j \<and> j < length pts \<and> pts ! i \<noteq> Point0
            \<longrightarrow> \<not> point_dist (pts ! j) (pts ! i) < real_of_int m)"
proof -
  let ?gw = "go_int (math_Ceil (real_of_int w / cellSize m))"
  let ?gh = "go_int (math_Ceil (real_of_int h / cellSize m))"
  from run obtain sp r1 where fs: "find_start R w h nm sea r = Some (Inr (sp, r1))"
    by (auto simp: PoissonDisk_def Let_def split: if_splits option.splits sum.splits)
  from run fs obtain g where
    g: "grid_store ?gw ?gh (\<lambda>c. Point0) (cell_of m (X sp)) (cell_of m (Y sp)) sp = Inr g"
    and al: "active_loop R m w h nm sea ?gw ?gh \<lparr>points = [sp], activePoints = [sp], grid = g, rng = r1\<rparr>
         = Some (Inr (pts, n))"
    by (auto simp: PoissonDisk_def Let_def split: if_splits sum.splits)
  have sp: "0 \<le> X sp \<and> X sp < w \<and> 0 \<le> Y sp \<and> Y sp < h"
    using find_start_in_raster_aux[OF fs] ok by blast
  have "sampler_inv m w h ?gw ?gh \<lparr>points = [sp], activePoints = [sp], grid = g, rng = r1\<rparr>"
    using sp g by (auto simp: sampler_inv_def grid_store_Inr)
  with active_loop_inv_aux[OF al] m show ?thesis by blast
qed

text \<open>
  In every list that \<^verbatim>\<open>PoissonDisk\<close> returns (for \<open>minDistance > 0\<close> and \<^verbatim>\<open>r.Intn\<close> within
  its contract), a point is at least \<open>minDistance\<close> away from every point accepted before
  it, except from an earlier point equal to \<^verbatim>\<open>Point{}\<close>, that is \<open>(0,0)\<close>: the 5 by 5
  block of cells does contain every stored point closer than \<open>minDistance\<close>, and only the
  stored \<open>(0,0)\<close> is skipped.
\<close>

theorem PoissonDisk_separated_after_nonzero:
  assumes "PoissonDisk R m w h r nm sea = Some (Inr (pts, n))" "0 < m" "Intn_ok R"
  shows "\<forall>i j. i < j \<and> j < length pts \<and> pts ! i \<noteq> Point0
           \<longrightarrow> real_of_int m \<le> point_dist (pts ! j) (pts ! i)"
  using PoissonDisk_final_inv[OF assms] by (auto simp: not_less)

theorem PoissonDisk_separated_after_nonzero_witness:
  "PoissonDisk (scripted origin_script) 25 512 512 origin_script land512 (45 / 100)
     = Some (Inr ([\<lparr>X = 0, Y = 0\<rparr>, \<lparr>X = 30, Y = 0\<rparr>, \<lparr>X = 5, Y = 0\<rparr>], 3))
   \<and> (0::int) < 25 \<and> Intn_ok (scripted origin_script)
   \<and> \<lparr>X = 30, Y = 0\<rparr> \<noteq> Point0
   \<and> real_of_int 25 \<le> point_dist \<lparr>X = 5, Y = 0\<rparr> \<lparr>X = 30, Y = 0\<rparr>"
proof -
  have run: "PoissonDisk (scripted origin_script) 25 512 512 origin_script land512 (45 / 100)
     = Some (Inr ([\<lparr>X = 0, Y = 0\<rparr>, \<lparr>X = 30, Y = 0\<rparr>, \<lparr>X = 5, Y = 0\<rparr>], 3))"
    by (rule origin_run) simp
  have ne: "\<lparr>X = 30, Y = 0\<rparr> \<noteq> Point0" by (simp add: Point0_def)
  from PoissonDisk_separated_after_nonzero[OF run _ scripted_Intn_ok, rule_format, of 1 2] ne
  have "real_of_int 25 \<le> point_dist \<lparr>X = 5, Y = 0\<rparr> \<lparr>X = 30, Y = 0\<rparr>" by simp
  with run ne scripted_Intn_ok show ?thesis by simp
qed

text \<open>Every point that \<^verbatim>\<open>PoissonDisk\<close> returns lies inside the raster
  \<open>[0, width) \<times> [0, height)\<close>.\<close>

theorem PoissonDisk_points_in_raster:
  assumes "PoissonDisk R m w h r nm sea = Some (Inr (pts, n))" "0 < m" "Intn_ok R"
  shows "\<forall>pt\<in>set pts. 0 \<le> X pt \<and> X pt < w \<and> 0 \<le> Y pt \<and> Y pt < h"
  using PoissonDisk_final_inv[OF assms] by blast

theorem PoissonDisk_points_in_raster_witness:
  "PoissonDisk (scripted origin_script) 25 512 512 origin_script land512 (45 / 100)
     = Some (Inr ([\<lparr>X = 0, Y = 0\<rparr>, \<lparr>X = 30, Y = 0\<rparr>, \<lparr>X = 5, Y = 0\<rparr>], 3))
   \<and> (0::int) < 25 \<and> Intn_ok (scripted origin_script)
   \<and> 0 \<le> X \<lparr>X = 30, Y = 0\<rparr> \<and> X \<lparr>X = 30, Y = 0\<rparr> < 512"
proof -
  have run: "PoissonDisk (scripted origin_script) 25 512 512 origin_script land512 (45 / 100)
     = Some (Inr ([\<lparr>X = 0, Y = 0\<rparr>, \<lparr>X = 30, Y = 0\<rparr>, \<lparr>X = 5, Y = 0\<rparr>], 3))"
    by (rule origin_run) simp
  from PoissonDisk_points_in_raster[OF run _ scripted_Intn_ok] run scripted_Intn_ok
  show ?thesis by simp
qed

section \<open>The fade curve at the ends and the middle\<close>

text \<open>\<^verbatim>\<open>fade(0) = 0\<close>, \<^verbatim>\<open>fade(1) = 1\<close> and \<^verbatim>\<open>fade(0.5) = 0.5\<close>, in exact arithmetic and also
  with every operation rounded to float64.\<close>

theorem fade_boundary:
  "fade 0 = 0 \<and> fade 1 = 1 \<and> fade (1 / 2) = 1 / 2
   \<and> fade_fl f64 0 = 0 \<and> fade_fl f64 1 = 1 \<and> fade_fl f64 (1 / 2) = 1 / 2"
  by (simp add: fade_def fade_fl_def f64_eval)

end
